theory Spec2Isabelle
  imports Complex_Main
begin

section \<open>Values, errors and boxes\<close>

text \<open>
  Tensor entries are modelled as real numbers. A quotient whose divisor is zero has no
  finite value in floating point (\<open>0/0\<close> is NaN); such an entry is \<open>None\<close>, and it stays
  \<open>None\<close> through every later arithmetic operation, as a NaN does.

  The two \<open>assert\<close> statements of \<open>models.py\<close> raise Python's AssertionError; the model
  names them after what they guard: \<open>GeometryError\<close> (lines 42-43) and \<open>ConfigError\<close>
  (lines 76-78). The other constructors are the exceptions of the libraries called.
\<close>

datatype error = ConfigError | GeometryError | IndexError | RuntimeError | ValueError

type_synonym box = "real \<times> real \<times> real \<times> real"

text \<open>An exception ends the call: the rest of the computation is skipped.\<close>

definition bind_err :: "error + 'a \<Rightarrow> ('a \<Rightarrow> error + 'b) \<Rightarrow> error + 'b" where
  "bind_err r f = (case r of Inl e \<Rightarrow> Inl e | Inr x \<Rightarrow> f x)"

definition fdiv :: "real \<Rightarrow> real \<Rightarrow> real option" where
  "fdiv x y = (if y = 0 then None else Some (x / y))"

definition fsub :: "real option \<Rightarrow> real option \<Rightarrow> real option" where
  "fsub a b = (case a of None \<Rightarrow> None | Some x \<Rightarrow> (case b of None \<Rightarrow> None | Some y \<Rightarrow> Some (x - y)))"

text \<open>
  Modelled from the spec: \<open>torchvision.ops.box_area\<close> is imported (line 8), not defined in
  the repository; it is the area of a box in \<open>[x0, y0, x1, y1]\<close> format, width times height.
\<close>

definition box_area :: "box \<Rightarrow> real" where
  "box_area b = (case b of (x0, y0, x1, y1) \<Rightarrow> (x1 - x0) * (y1 - y0))"

section \<open>\<open>box_iou\<close> (lines 16-29)\<close>

text \<open>
  The source works on whole \<open>[N, M]\<close> tensors by broadcasting; the model computes the entry of
  one pair of boxes and maps it over the two lists.
\<close>

definition inter_pair :: "box \<Rightarrow> box \<Rightarrow> real" where
  "inter_pair b1 b2 =
     (case b1 of (ax0, ay0, ax1, ay1) \<Rightarrow> case b2 of (bx0, by0, bx1, by1) \<Rightarrow>
        let lt = (max ax0 bx0, max ay0 by0);
            rb = (min ax1 bx1, min ay1 by1);
            wh = (max 0 (fst rb - fst lt), max 0 (snd rb - snd lt))
        in fst wh * snd wh)"

definition union_pair :: "box \<Rightarrow> box \<Rightarrow> real" where
  "union_pair b1 b2 = box_area b1 + box_area b2 - inter_pair b1 b2"

definition iou_pair :: "box \<Rightarrow> box \<Rightarrow> real option" where
  "iou_pair b1 b2 = fdiv (inter_pair b1 b2) (union_pair b1 b2)"

definition box_iou :: "box list \<Rightarrow> box list \<Rightarrow> real option list list \<times> real list list" where
  "box_iou boxes1 boxes2 =
     (map (\<lambda>b1. map (iou_pair b1) boxes2) boxes1,
      map (\<lambda>b1. map (union_pair b1) boxes2) boxes1)"

section \<open>\<open>generalized_box_iou\<close> (lines 33-52)\<close>

definition valid_box :: "box \<Rightarrow> bool" where
  "valid_box b = (case b of (x0, y0, x1, y1) \<Rightarrow> x1 \<ge> x0 \<and> y1 \<ge> y0)"

definition enclosing_area :: "box \<Rightarrow> box \<Rightarrow> real" where
  "enclosing_area b1 b2 =
     (case b1 of (ax0, ay0, ax1, ay1) \<Rightarrow> case b2 of (bx0, by0, bx1, by1) \<Rightarrow>
        let lt = (min ax0 bx0, min ay0 by0);
            rb = (max ax1 bx1, max ay1 by1);
            wh = (max 0 (fst rb - fst lt), max 0 (snd rb - snd lt))
        in fst wh * snd wh)"

definition giou_entry :: "real option \<Rightarrow> real \<Rightarrow> real \<Rightarrow> real option" where
  "giou_entry iou un area = fsub iou (fdiv (area - un) area)"

definition giou_pair :: "box \<Rightarrow> box \<Rightarrow> real option" where
  "giou_pair b1 b2 = giou_entry (iou_pair b1 b2) (union_pair b1 b2) (enclosing_area b1 b2)"

definition generalized_box_iou :: "box list \<Rightarrow> box list \<Rightarrow> error + real option list list" where
  "generalized_box_iou boxes1 boxes2 =
     (if \<not> list_all valid_box boxes1 then Inl GeometryError
      else if \<not> list_all valid_box boxes2 then Inl GeometryError
      else
        let (iou, un) = box_iou boxes1 boxes2
        in Inr (map (\<lambda>(b1, iou_row, union_row).
                  map (\<lambda>(b2, i, u). giou_entry i u (enclosing_area b1 b2))
                      (zip boxes2 (zip iou_row union_row)))
                (zip boxes1 (zip iou un))))"

section \<open>\<open>HungarianMatcher.__init__\<close> (lines 63-78)\<close>

record HungarianMatcher =
  cost_class :: real
  cost_bbox :: real
  cost_giou :: real

definition HungarianMatcher_init :: "real \<Rightarrow> real \<Rightarrow> real \<Rightarrow> error + HungarianMatcher" where
  "HungarianMatcher_init cc cb cg =
     (if cc \<noteq> 0 \<or> cb \<noteq> 0 \<or> cg \<noteq> 0
      then Inr \<lparr>cost_class = cc, cost_bbox = cb, cost_giou = cg\<rparr>
      else Inl ConfigError)"

section \<open>Library operations used by \<open>PostProcess\<close>\<close>

text \<open>
  Modelled from the spec: \<open>torch.nn.functional.softmax\<close> is imported (line 5), not defined
  in the repository; the softmax of a logit vector is each exponential divided by the sum of
  all exponentials.
\<close>

definition softmax :: "real list \<Rightarrow> real list" where
  "softmax xs = map (\<lambda>x. exp x / sum_list (map exp xs)) xs"

text \<open>
  Modelled from the spec: \<open>torch.max(scores, dim=1)\<close> is a library call; for each row it
  gives the maximum and the index of the first entry that attains it, and it raises on a row
  with no entry.
\<close>

fun max_from :: "real \<Rightarrow> nat \<Rightarrow> nat \<Rightarrow> real list \<Rightarrow> real \<times> nat" where
  "max_from v j i [] = (v, j)"
| "max_from v j i (y # ys) =
     (if y > v then max_from y i (Suc i) ys else max_from v j (Suc i) ys)"

fun row_max :: "real list \<Rightarrow> (real \<times> nat) option" where
  "row_max [] = None"
| "row_max (x # xs) = Some (max_from x 0 1 xs)"

definition torch_max_dim1 :: "real list list \<Rightarrow> error + (real list \<times> nat list)" where
  "torch_max_dim1 rows =
     (if \<exists>r \<in> set rows. r = [] then Inl IndexError
      else Inr (map (\<lambda>r. fst (the (row_max r))) rows, map (\<lambda>r. snd (the (row_max r))) rows))"

text \<open>
  Indexing a tensor by a boolean mask (\<open>scores[idx]\<close>, lines 298-300) keeps the entries
  whose mask bit is set, in order, and raises when the mask is not as long as the tensor.
  Indexing by a tensor of indices (lines 304-306) gathers the entries at these indices and
  raises on an index out of range.
\<close>

definition mask_select :: "'a list \<Rightarrow> bool list \<Rightarrow> error + 'a list" where
  "mask_select xs msk =
     (if length xs \<noteq> length msk then Inl IndexError
      else Inr (map fst (filter snd (zip xs msk))))"

definition index_select :: "'a list \<Rightarrow> nat list \<Rightarrow> error + 'a list" where
  "index_select xs idx =
     (if list_all (\<lambda>i. i < length xs) idx then Inr (map (\<lambda>i. xs ! i) idx)
      else Inl IndexError)"

text \<open>
  Modelled from the spec: \<open>torchvision.ops.nms\<close> is imported (line 8), not defined in the
  repository. The spec (4.4, step 3) describes it: sort the boxes by descending score;
  repeatedly select the highest-scoring remaining box, emit it, then remove every remaining
  box whose IoU with the selected box exceeds the threshold. The result is the list of the
  indices of the emitted boxes. The sort is stable (boxes of equal score keep their order),
  the IoU is the one of \<open>box_iou\<close>, an IoU that is NaN exceeds no threshold, and boxes and
  scores of different lengths are refused.
\<close>

definition suppresses :: "real \<Rightarrow> box \<Rightarrow> box \<Rightarrow> bool" where
  "suppresses iou_threshold bi bj =
     (case iou_pair bi bj of None \<Rightarrow> False | Some ovr \<Rightarrow> ovr > iou_threshold)"

function greedy_keep :: "('a \<Rightarrow> 'a \<Rightarrow> bool) \<Rightarrow> 'a list \<Rightarrow> 'a list" where
  "greedy_keep supp [] = []"
| "greedy_keep supp (i # rest) = i # greedy_keep supp (filter (\<lambda>j. \<not> supp i j) rest)"
  by pat_completeness auto
termination
  by (relation "measure (\<lambda>(supp, xs). length xs)") (auto simp: less_Suc_eq_le)

definition nms :: "box list \<Rightarrow> real list \<Rightarrow> real \<Rightarrow> error + nat list" where
  "nms boxes scores iou_threshold =
     (if length boxes \<noteq> length scores then Inl RuntimeError
      else
        let order = sort_key (\<lambda>i. - (scores ! i)) [0..<length scores]
        in Inr (greedy_keep (\<lambda>i j. suppresses iou_threshold (boxes ! i) (boxes ! j)) order))"

section \<open>\<open>PostProcess\<close> (lines 281-308)\<close>

record PostProcess =
  confidence_threshold :: real
  iou_threshold :: real

text \<open>
  Line 296 compares the float32 tensor of scores with the Python float
  \<open>confidence_threshold\<close>: the library casts the scalar to the type of the tensor and
  compares in float32. \<open>to_float32\<close> is that cast, the binary32 number nearest to a real
  number with ties to the even significand (24 bits of precision, least exponent -126). A
  number beyond the float32 range becomes an infinity in the cast; the scores lie between 0
  and 1, so comparing them with the value rounded at an unbounded exponent gives the same
  result.
\<close>

definition rne :: "real \<Rightarrow> int" where
  "rne x =
     (let f = \<lfloor>x\<rfloor>; d = x - of_int f
      in if d < 1/2 then f else if 1/2 < d then f + 1 else if even f then f else f + 1)"

definition float32_exponent :: "real \<Rightarrow> int" where
  "float32_exponent a = max (- 126) \<lfloor>log 2 a\<rfloor>"

definition round_float32 :: "real \<Rightarrow> real" where
  "round_float32 a =
     (let ulp = 2 powr of_int (float32_exponent a - 23)
      in of_int (rne (a / ulp)) * ulp)"

definition to_float32 :: "real \<Rightarrow> real" where
  "to_float32 x =
     (if x = 0 then 0 else if 0 < x then round_float32 x else - round_float32 (- x))"

text \<open>Lines 291-300: the scores and classes of the queries, and the thresholding.\<close>

definition threshold_stage ::
  "PostProcess \<Rightarrow> box list \<Rightarrow> real list list \<Rightarrow> error + (box list \<times> nat list \<times> real list)" where
  "threshold_stage self pred_boxes pred_classes =
     (let scores = map (\<lambda>row. butlast (softmax row)) pred_classes
      in bind_err (torch_max_dim1 scores) (\<lambda>(scores, classes).
           let idx = map (\<lambda>s. s > to_float32 (confidence_threshold self)) scores
           in bind_err (mask_select scores idx) (\<lambda>scores'.
              bind_err (mask_select classes idx) (\<lambda>classes'.
              bind_err (mask_select pred_boxes idx) (\<lambda>pred_boxes'.
                Inr (pred_boxes', classes', scores'))))))"

text \<open>Lines 302-306: non-maximum suppression of what the thresholding left.\<close>

definition nms_stage ::
  "PostProcess \<Rightarrow> box list \<times> nat list \<times> real list \<Rightarrow> error + (box list \<times> nat list \<times> real list)" where
  "nms_stage self st =
     (case st of (pred_boxes, classes, scores) \<Rightarrow>
        bind_err (nms pred_boxes scores (iou_threshold self)) (\<lambda>idx.
        bind_err (index_select classes idx) (\<lambda>classes'.
        bind_err (index_select pred_boxes idx) (\<lambda>pred_boxes'.
        bind_err (index_select scores idx) (\<lambda>scores'.
          Inr (pred_boxes', classes', scores'))))))"

text \<open>
  The call on the tensors without their batch dimension: \<open>pred_boxes\<close> of shape \<open>[Q, 4]\<close>
  and \<open>pred_classes\<close> of shape \<open>[Q, C + 1]\<close>.
\<close>

definition post_process ::
  "PostProcess \<Rightarrow> box list \<Rightarrow> real list list \<Rightarrow> error + (box list \<times> nat list \<times> real list)" where
  "post_process self pred_boxes pred_classes =
     bind_err (threshold_stage self pred_boxes pred_classes) (nms_stage self)"

text \<open>
  \<open>__call__\<close> supports a batch of one (line 287): \<open>squeeze(0)\<close> drops the batch dimension
  of size one on entry and \<open>unsqueeze_(0)\<close> puts it back on the three results. A batch of
  another size is outside what the source supports; the model gives \<open>None\<close> for it.
\<close>

fun squeeze0 :: "'a list \<Rightarrow> 'a option" where
  "squeeze0 [x] = Some x"
| "squeeze0 _ = None"

definition PostProcess_call ::
  "PostProcess \<Rightarrow> box list list \<Rightarrow> real list list list
     \<Rightarrow> (error + (box list list \<times> nat list list \<times> real list list)) option" where
  "PostProcess_call self all_pred_boxes pred_classes =
     (case (squeeze0 all_pred_boxes, squeeze0 pred_classes) of
        (Some pb, Some pc) \<Rightarrow>
          Some (bind_err (post_process self pb pc) (\<lambda>(b, c, s). Inr ([b], [c], [s])))
      | _ \<Rightarrow> None)"

text \<open>
  The score and the class of one query, as lines 291-294 compute them from its logits, and
  the queries that the thresholding of lines 296-300 keeps.
\<close>

definition query_score :: "real list \<Rightarrow> real" where
  "query_score logits = fst (the (row_max (butlast (softmax logits))))"

definition query_class :: "real list \<Rightarrow> nat" where
  "query_class logits = snd (the (row_max (butlast (softmax logits))))"

definition survivors :: "PostProcess \<Rightarrow> real list list \<Rightarrow> nat list" where
  "survivors self pred_classes =
     filter (\<lambda>q. query_score (pred_classes ! q) > to_float32 (confidence_threshold self))
       [0..<length pred_classes]"

text \<open>
  The queries that survive both stages, in output order: the survivors of the thresholding,
  sorted by descending score and thinned by the greedy suppression.
\<close>

definition kept :: "PostProcess \<Rightarrow> box list \<Rightarrow> real list list \<Rightarrow> nat list" where
  "kept self pred_boxes pred_classes =
     greedy_keep (\<lambda>a b. suppresses (iou_threshold self) (pred_boxes ! a) (pred_boxes ! b))
       (sort_key (\<lambda>q. - query_score (pred_classes ! q)) (survivors self pred_classes))"

section \<open>Library operations used by \<open>HungarianMatcher.forward\<close>\<close>

text \<open>
  \<open>out_prob[:, tgt_ids]\<close> (line 113) reads one entry of a row of class probabilities for
  each target label. A label may be negative, counting from the end, and a label outside
  the row raises.
\<close>

definition py_index :: "'a list \<Rightarrow> int \<Rightarrow> 'a option" where
  "py_index xs i =
     (let n = int (length xs)
      in if 0 \<le> i \<and> i < n then Some (xs ! nat i)
         else if - n \<le> i \<and> i < 0 then Some (xs ! nat (n + i))
         else None)"

definition class_cost :: "real list list \<Rightarrow> int list \<Rightarrow> error + real list list" where
  "class_cost out_prob tgt_ids =
     (if \<forall>p \<in> set out_prob. \<forall>i \<in> set tgt_ids. py_index p i \<noteq> None
      then Inr (map (\<lambda>p. map (\<lambda>i. - the (py_index p i)) tgt_ids) out_prob)
      else Inl IndexError)"

text \<open>
  Modelled from the spec: \<open>torch.cdist(out_bbox, tgt_bbox, p=1)\<close> is a library call; the
  box cost is the L1 (Manhattan) distance between the four coordinates of the two boxes.
\<close>

definition l1_dist :: "box \<Rightarrow> box \<Rightarrow> real" where
  "l1_dist a b =
     (case a of (ax0, ay0, ax1, ay1) \<Rightarrow> case b of (bx0, by0, bx1, by1) \<Rightarrow>
        \<bar>ax0 - bx0\<bar> + \<bar>ay0 - by0\<bar> + \<bar>ax1 - bx1\<bar> + \<bar>ay1 - by1\<bar>)"

definition cdist_l1 :: "box list \<Rightarrow> box list \<Rightarrow> real list list" where
  "cdist_l1 xs ys = map (\<lambda>a. map (l1_dist a) ys) xs"

text \<open>
  \<open>C.view(bs, num_queries, -1)\<close> (line 127) cuts the rows of the flat matrix into \<open>bs\<close>
  groups of \<open>num_queries\<close> rows. The size of the last dimension is inferred, which the
  library refuses when \<open>bs * num_queries\<close> is zero.
\<close>

definition view3 :: "nat \<Rightarrow> nat \<Rightarrow> 'a list list \<Rightarrow> error + 'a list list list" where
  "view3 bs num_queries C =
     (if bs * num_queries = 0 then Inl RuntimeError
      else Inr (map (\<lambda>b. take num_queries (drop (b * num_queries) C)) [0..<bs]))"

text \<open>
  \<open>C.split(sizes, -1)\<close> (line 131) cuts the last dimension into consecutive pieces of the
  given sizes. The sizes are the numbers of target boxes, which sum to the number of columns
  of \<open>C\<close> by construction (lines 108 and 129).
\<close>

fun split_last :: "nat list \<Rightarrow> 'a list list list \<Rightarrow> 'a list list list list" where
  "split_last [] C = []"
| "split_last (s # sizes) C = map (map (take s)) C # split_last sizes (map (map (drop s)) C)"

text \<open>\<open>c[i]\<close> (line 131) raises when \<open>i\<close> is not below the batch size.\<close>

definition block_at :: "nat \<Rightarrow> 'a list \<Rightarrow> error + 'a" where
  "block_at i c = (if i < length c then Inr (c ! i) else Inl IndexError)"

section \<open>The assignment solver\<close>

text \<open>
  Modelled from the spec: \<open>scipy.optimize.linear_sum_assignment\<close> is imported (line 3), not
  defined in the repository. The spec (4.3) gives its contract: on a \<open>Q \<times> T\<close> cost matrix it
  returns \<open>min(Q, T)\<close> pairs, each query and each target used at most once, of minimal total
  cost among all such assignments, ties broken deterministically; on \<open>T = 0\<close> the assignment
  is empty. The model enumerates every such assignment with its query indices in increasing
  order (each row in turn either takes a free column or stays unmatched) and returns the
  first one of least total cost. A matrix with an entry that is not a number is refused.
\<close>

fun matchings :: "nat list \<Rightarrow> nat list \<Rightarrow> nat \<Rightarrow> (nat \<times> nat) list list" where
  "matchings rows cols 0 = [[]]"
| "matchings [] cols (Suc k) = []"
| "matchings (r # rows) cols (Suc k) =
     concat (map (\<lambda>c. map (\<lambda>m. (r, c) # m) (matchings rows (remove1 c cols) k)) cols)
     @ matchings rows cols (Suc k)"

definition total_cost :: "real list list \<Rightarrow> (nat \<times> nat) list \<Rightarrow> real" where
  "total_cost c m = sum_list (map (\<lambda>(q, t). c ! q ! t) m)"

fun best_of :: "real list list \<Rightarrow> (nat \<times> nat) list \<Rightarrow> (nat \<times> nat) list list \<Rightarrow> (nat \<times> nat) list" where
  "best_of c best [] = best"
| "best_of c best (m # ms) =
     (if total_cost c m < total_cost c best then best_of c m ms else best_of c best ms)"

definition best_matching :: "real list list \<Rightarrow> (nat \<times> nat) list list \<Rightarrow> (nat \<times> nat) list" where
  "best_matching c ms = (case ms of [] \<Rightarrow> [] | m # ms' \<Rightarrow> best_of c m ms')"

definition linear_sum_assignment :: "real option list list \<Rightarrow> error + (nat list \<times> nat list)" where
  "linear_sum_assignment cost_matrix =
     (if \<exists>row \<in> set cost_matrix. None \<in> set row then Inl ValueError
      else
        let c = map (map the) cost_matrix;
            nr = length c;
            nc = (case c of [] \<Rightarrow> 0 | row # _ \<Rightarrow> length row);
            m = best_matching c (matchings [0..<nr] [0..<nc] (min nr nc))
        in Inr (map fst m, map snd m))"

section \<open>\<open>HungarianMatcher.forward\<close> (lines 81-139)\<close>

text \<open>
  \<open>outputs\<close> holds the tensor \<open>pred_logits\<close> of shape \<open>[batch_size, num_queries,
  num_classes]\<close> and the tensor \<open>pred_boxes\<close> of shape \<open>[batch_size, num_queries, 4]\<close>; each
  target holds \<open>labels\<close> of shape \<open>[num_target_boxes]\<close> and \<open>boxes\<close> of shape
  \<open>[num_target_boxes, 4]\<close>. Nested lists can be ragged where tensors cannot; the two
  predicates say that the lists have the shapes of the docstring.
\<close>

record outputs =
  pred_logits :: "real list list list"
  pred_boxes :: "box list list"

record target =
  labels :: "int list"
  boxes :: "box list"

definition num_queries_of :: "outputs \<Rightarrow> nat" where
  "num_queries_of outputs = (case pred_logits outputs of [] \<Rightarrow> 0 | r # _ \<Rightarrow> length r)"

definition wf_outputs :: "outputs \<Rightarrow> bool" where
  "wf_outputs outputs =
     (length (pred_boxes outputs) = length (pred_logits outputs)
      \<and> list_all (\<lambda>r. length r = num_queries_of outputs) (pred_logits outputs)
      \<and> list_all (\<lambda>r. length r = num_queries_of outputs) (pred_boxes outputs))"

definition wf_targets :: "target list \<Rightarrow> bool" where
  "wf_targets targets = list_all (\<lambda>v. length (labels v) = length (boxes v)) targets"

text \<open>
  Lines 122-126: the weighted sum of the three cost matrices, entry by entry. The three
  matrices have the same shape when the inputs have the shapes of the docstring; the sum of
  tensors of different shapes is refused (broadcasting of a dimension of size one, which
  these shapes exclude, is left out).
\<close>

definition final_cost ::
  "HungarianMatcher \<Rightarrow> real list list \<Rightarrow> real list list \<Rightarrow> real option list list
     \<Rightarrow> real option list list" where
  "final_cost self c_bbox c_class c_giou =
     map (\<lambda>(rb, rc, rg).
            map (\<lambda>(b, c, g).
                   map_option (\<lambda>g. cost_bbox self * b + cost_class self * c + cost_giou self * g) g)
                (zip rb (zip rc rg)))
         (zip c_bbox (zip c_class c_giou))"

text \<open>Lines 98-127: the cost tensor of shape \<open>[bs, num_queries, total number of targets]\<close>.\<close>

definition cost_tensor ::
  "HungarianMatcher \<Rightarrow> outputs \<Rightarrow> target list \<Rightarrow> error + real option list list list" where
  "cost_tensor self outputs targets =
     (let bs = length (pred_logits outputs);
          num_queries = num_queries_of outputs;
          out_prob = map softmax (concat (pred_logits outputs));
          out_bbox = concat (pred_boxes outputs)
      in if targets = [] then Inl RuntimeError
         else
           let tgt_ids = concat (map labels targets);
               tgt_bbox = concat (map boxes targets)
           in bind_err (class_cost out_prob tgt_ids) (\<lambda>c_class.
              let c_bbox = cdist_l1 out_bbox tgt_bbox
              in bind_err (generalized_box_iou out_bbox tgt_bbox) (\<lambda>giou.
                 let c_giou = map (map (map_option uminus)) giou
                 in if length out_prob \<noteq> length out_bbox \<or> length tgt_ids \<noteq> length tgt_bbox
                    then Inl RuntimeError
                    else view3 bs num_queries (final_cost self c_bbox c_class c_giou))))"

text \<open>
  Lines 129-139: the blocks are taken and solved one batch element after the other, so the
  first exception met, from \<open>c[i]\<close> or from the solver, ends the call.
\<close>

fun solve_blocks ::
  "nat \<Rightarrow> real option list list list list \<Rightarrow> error + (nat list \<times> nat list) list" where
  "solve_blocks i [] = Inr []"
| "solve_blocks i (c # cs) =
     bind_err (block_at i c) (\<lambda>blk.
     bind_err (linear_sum_assignment blk) (\<lambda>r.
     bind_err (solve_blocks (Suc i) cs) (\<lambda>rs. Inr (r # rs))))"

definition forward ::
  "HungarianMatcher \<Rightarrow> outputs \<Rightarrow> target list \<Rightarrow> error + (nat list \<times> nat list) list" where
  "forward self outputs targets =
     bind_err (cost_tensor self outputs targets) (\<lambda>C.
       let sizes = map (\<lambda>v. length (boxes v)) targets
       in solve_blocks 0 (split_last sizes C))"

text \<open>
  A one-to-one matching of queries below \<open>Q\<close> with targets below \<open>T\<close>: no query and no
  target appears in two pairs.
\<close>

definition is_matching :: "nat \<Rightarrow> nat \<Rightarrow> (nat \<times> nat) list \<Rightarrow> bool" where
  "is_matching Q T m =
     (distinct (map fst m) \<and> distinct (map snd m)
      \<and> list_all (\<lambda>(q, t). q < Q \<and> t < T) m)"


text \<open>
  The cost that the spec (4.2) prescribes for query \<open>q\<close> against target \<open>t\<close> of one batch
  element, \<open>wBox * boxCost + wClass * classCost + wGiou * giouCost\<close>, and the \<open>Q \<times> T\<close> block
  of these costs, to compare with what lines 98-131 hand to the solver.
\<close>

definition class_prob :: "real list \<Rightarrow> int \<Rightarrow> real" where
  "class_prob logits label = the (py_index (softmax logits) label)"

definition cost_entry :: "HungarianMatcher \<Rightarrow> real list \<Rightarrow> box \<Rightarrow> int \<Rightarrow> box \<Rightarrow> real option" where
  "cost_entry self logits qbox label tbox =
     map_option (\<lambda>g. cost_bbox self * l1_dist qbox tbox
                      + cost_class self * (- class_prob logits label)
                      + cost_giou self * (- g))
       (giou_pair qbox tbox)"

definition cost_block :: "HungarianMatcher \<Rightarrow> outputs \<Rightarrow> target list \<Rightarrow> nat \<Rightarrow> real option list list" where
  "cost_block self outputs targets b =
     map (\<lambda>q. map (\<lambda>t. cost_entry self (pred_logits outputs ! b ! q) (pred_boxes outputs ! b ! q)
                           (labels (targets ! b) ! t) (boxes (targets ! b) ! t))
                 [0..<length (boxes (targets ! b))])
         [0..<num_queries_of outputs]"

text \<open>
  One entry of the flat cost matrix of lines 113-126, for one row of class probabilities
  and one predicted box against one target label and box.
\<close>

definition flat_entry ::
  "HungarianMatcher \<Rightarrow> real list \<Rightarrow> box \<Rightarrow> int \<Rightarrow> box \<Rightarrow> real option" where
  "flat_entry self p qbox i tbox =
     map_option (\<lambda>g. cost_bbox self * l1_dist qbox tbox
                      + cost_class self * (- the (py_index p i))
                      + cost_giou self * (- g))
       (giou_pair qbox tbox)"


text \<open>
  The other sources of an exception in \<open>forward\<close>: a label outside the class dimension
  (line 113), a box that fails the check of \<open>generalized_box_iou\<close> (line 119), and a cost
  that is not a number, which the solver refuses (line 131).
\<close>

definition labels_in_range :: "outputs \<Rightarrow> target list \<Rightarrow> bool" where
  "labels_in_range outputs targets =
     (\<forall>l \<in> set (concat (pred_logits outputs)). \<forall>v \<in> set targets. \<forall>i \<in> set (labels v).
        - int (length l) \<le> i \<and> i < int (length l))"

definition boxes_valid :: "outputs \<Rightarrow> target list \<Rightarrow> bool" where
  "boxes_valid outputs targets =
     (list_all valid_box (concat (pred_boxes outputs))
      \<and> list_all valid_box (concat (map boxes targets)))"

definition costs_finite :: "outputs \<Rightarrow> target list \<Rightarrow> bool" where
  "costs_finite outputs targets =
     (\<forall>j<length targets. \<forall>q<num_queries_of outputs. \<forall>tbox \<in> set (boxes (targets ! j)).
        giou_pair (pred_boxes outputs ! j ! q) tbox \<noteq> None)"

text \<open>
  The same cost in the words of the spec (4.1, 4.2), written without reference to the code:
  the intersection of two boxes is the rectangle where their extents overlap on both axes,
  the union is area of A + area of B - intersection, IoU is intersection over union, the
  enclosing box is the minimal axis-aligned box containing both, GIoU is
  IoU - (enclosing area - union) / enclosing area, and the class probability is the softmax
  of the logits at the label. \<open>spec_cost\<close> is
  \<open>wBox * boxCost + wClass * classCost + wGiou * giouCost\<close>.
\<close>

definition spec_overlap :: "real \<Rightarrow> real \<Rightarrow> real \<Rightarrow> real \<Rightarrow> real" where
  "spec_overlap a0 a1 b0 b1 = (if max a0 b0 < min a1 b1 then min a1 b1 - max a0 b0 else 0)"

definition spec_intersection :: "box \<Rightarrow> box \<Rightarrow> real" where
  "spec_intersection a b =
     (case a of (ax0, ay0, ax1, ay1) \<Rightarrow> case b of (bx0, by0, bx1, by1) \<Rightarrow>
        spec_overlap ax0 ax1 bx0 bx1 * spec_overlap ay0 ay1 by0 by1)"

definition spec_union :: "box \<Rightarrow> box \<Rightarrow> real" where
  "spec_union a b = box_area a + box_area b - spec_intersection a b"

definition spec_enclosing :: "box \<Rightarrow> box \<Rightarrow> real" where
  "spec_enclosing a b =
     (case a of (ax0, ay0, ax1, ay1) \<Rightarrow> case b of (bx0, by0, bx1, by1) \<Rightarrow>
        (max ax1 bx1 - min ax0 bx0) * (max ay1 by1 - min ay0 by0))"

definition spec_giou :: "box \<Rightarrow> box \<Rightarrow> real" where
  "spec_giou a b =
     spec_intersection a b / spec_union a b
     - (spec_enclosing a b - spec_union a b) / spec_enclosing a b"

definition spec_prob :: "real list \<Rightarrow> nat \<Rightarrow> real" where
  "spec_prob logits k = exp (logits ! k) / (\<Sum>x\<leftarrow>logits. exp x)"

definition spec_cost :: "HungarianMatcher \<Rightarrow> real list \<Rightarrow> box \<Rightarrow> nat \<Rightarrow> box \<Rightarrow> real" where
  "spec_cost self logits qbox label tbox =
     cost_bbox self * l1_dist qbox tbox
     + cost_class self * (- spec_prob logits label)
     + cost_giou self * (- spec_giou qbox tbox)"

section \<open>Box geometry: facts\<close>

lemma zip_map_map_same:
  "zip (map f xs) (map g xs) = map (\<lambda>x. (f x, g x)) xs"
  by (induction xs) simp_all

lemma zip_same_map: "zip xs (map g xs) = map (\<lambda>x. (x, g x)) xs"
  by (induction xs) simp_all

lemma generalized_box_iou_pairs:
  assumes "list_all valid_box boxes1" and "list_all valid_box boxes2"
  shows "generalized_box_iou boxes1 boxes2 = Inr (map (\<lambda>b1. map (giou_pair b1) boxes2) boxes1)"
  using assms
  by (simp add: generalized_box_iou_def box_iou_def zip_map_map_same zip_same_map
      giou_pair_def comp_def)

text \<open>
  Where a divisor of \<open>box_iou\<close> or of \<open>generalized_box_iou\<close> is zero, the dividend is
  zero too: the quotient is \<open>0/0\<close>, a NaN, never an infinity. This is why one value,
  \<open>None\<close>, stands for every quotient without a finite value.
\<close>

lemma inter_pair_nonneg: "0 \<le> inter_pair b1 b2"
  by (cases b1, cases b2) (simp add: inter_pair_def)

lemma inter_pair_le_areas:
  assumes "0 < inter_pair b1 b2"
  shows "inter_pair b1 b2 \<le> box_area b1" and "inter_pair b1 b2 \<le> box_area b2"
proof -
  obtain ax0 ay0 ax1 ay1 where b1: "b1 = (ax0, ay0, ax1, ay1)" by (cases b1) auto
  obtain bx0 by0 bx1 by1 where b2: "b2 = (bx0, by0, bx1, by1)" by (cases b2) auto
  define w where "w = min ax1 bx1 - max ax0 bx0"
  define h where "h = min ay1 by1 - max ay0 by0"
  have i: "inter_pair b1 b2 = max 0 w * max 0 h"
    unfolding b1 b2 inter_pair_def w_def h_def by simp
  have "0 < max 0 w \<and> 0 < max 0 h"
    using assms unfolding i by (simp add: zero_less_mult_iff max_def split: if_splits)
  then have w: "0 < w" and h: "0 < h" by (auto simp: max_def split: if_splits)
  have i': "inter_pair b1 b2 = w * h" using i w h by simp
  have "w \<le> ax1 - ax0" "h \<le> ay1 - ay0" "w \<le> bx1 - bx0" "h \<le> by1 - by0"
    unfolding w_def h_def by simp_all
  then have "w * h \<le> (ax1 - ax0) * (ay1 - ay0)" "w * h \<le> (bx1 - bx0) * (by1 - by0)"
    using w h by (auto intro!: mult_mono)
  then show "inter_pair b1 b2 \<le> box_area b1" and "inter_pair b1 b2 \<le> box_area b2"
    using i' by (simp_all add: b1 b2 box_area_def)
qed

lemma iou_zero_divisor:
  assumes "union_pair b1 b2 = 0"
  shows "inter_pair b1 b2 = 0"
proof (rule ccontr)
  assume "inter_pair b1 b2 \<noteq> 0"
  then have p: "0 < inter_pair b1 b2" using inter_pair_nonneg [of b1 b2] by simp
  have "inter_pair b1 b2 \<le> box_area b1" "inter_pair b1 b2 \<le> box_area b2"
    using inter_pair_le_areas [OF p] by simp_all
  then have "0 < union_pair b1 b2" using p unfolding union_pair_def by simp
  then show False using assms by simp
qed

lemma giou_zero_divisor:
  assumes "valid_box b1" and "valid_box b2" and "enclosing_area b1 b2 = 0"
  shows "enclosing_area b1 b2 - union_pair b1 b2 = 0"
proof -
  obtain ax0 ay0 ax1 ay1 where b1: "b1 = (ax0, ay0, ax1, ay1)" by (cases b1) auto
  obtain bx0 by0 bx1 by1 where b2: "b2 = (bx0, by0, bx1, by1)" by (cases b2) auto
  have v: "ax0 \<le> ax1" "ay0 \<le> ay1" "bx0 \<le> bx1" "by0 \<le> by1"
    using assms(1,2) unfolding b1 b2 valid_box_def by simp_all
  have "max ax1 bx1 - min ax0 bx0 = 0 \<or> max ay1 by1 - min ay0 by0 = 0"
    using assms(3) v unfolding b1 b2 enclosing_area_def
    by (simp add: max_def min_def split: if_splits)
  then have "(ax0 = ax1 \<and> bx0 = bx1 \<and> ax0 = bx0) \<or> (ay0 = ay1 \<and> by0 = by1 \<and> ay0 = by0)"
    using v by (auto simp: max_def min_def split: if_splits)
  then have "union_pair b1 b2 = 0"
    unfolding b1 b2 union_pair_def box_area_def inter_pair_def by auto
  then show ?thesis using assms(3) by simp
qed

text \<open>
  Claim C6. \<open>generalized_box_iou\<close> checks every box of both sets for \<open>x1 \<ge> x0\<close> and
  \<open>y1 \<ge> y0\<close> first: it fails with the geometry error exactly when some box of either set
  violates the invariant, and then returns no matrix at all; when every box satisfies the
  invariant the failure branch is not taken and the matrix of pairwise GIoU values is
  returned.
\<close>

theorem generalized_box_iou_checks_boxes:
  "(generalized_box_iou boxes1 boxes2 = Inl GeometryError)
      = (\<exists>b \<in> set boxes1 \<union> set boxes2. \<not> valid_box b)
   \<and> ((\<exists>b \<in> set boxes1 \<union> set boxes2. \<not> valid_box b)
        \<longrightarrow> (\<forall>g. generalized_box_iou boxes1 boxes2 \<noteq> Inr g))
   \<and> ((\<forall>b \<in> set boxes1 \<union> set boxes2. valid_box b)
        \<longrightarrow> generalized_box_iou boxes1 boxes2
              = Inr (map (\<lambda>b1. map (giou_pair b1) boxes2) boxes1))"
proof -
  have inv: "generalized_box_iou boxes1 boxes2 = Inl GeometryError"
    if "\<exists>b \<in> set boxes1 \<union> set boxes2. \<not> valid_box b"
    using that by (auto simp: generalized_box_iou_def list_all_iff)
  have ok: "generalized_box_iou boxes1 boxes2
              = Inr (map (\<lambda>b1. map (giou_pair b1) boxes2) boxes1)"
    if "\<forall>b \<in> set boxes1 \<union> set boxes2. valid_box b"
    using that by (intro generalized_box_iou_pairs) (auto simp: list_all_iff)
  show ?thesis
    using inv ok by (metis sum.distinct(1))
qed

theorem generalized_box_iou_checks_boxes_witness:
  "generalized_box_iou [(0, 0, 2, 2)] [(1, 1, 3, 3)] = Inr [[Some (- 5 / 63)]]
   \<and> generalized_box_iou [(0, 0, 2, 2)] [(3, 1, 1, 3)] = Inl GeometryError"
proof -
  have a: "\<forall>b \<in> set [(0, 0, 2, 2)] \<union> set [(1, 1, 3, 3) :: box]. valid_box b"
    by (simp add: valid_box_def)
  have b: "\<exists>b \<in> set [(0, 0, 2, 2)] \<union> set [(3, 1, 1, 3) :: box]. \<not> valid_box b"
    by (simp add: valid_box_def)
  have g: "giou_pair (0, 0, 2, 2) (1, 1, 3, 3) = Some (- 5 / 63)"
    by (simp add: giou_pair_def giou_entry_def iou_pair_def union_pair_def inter_pair_def
        box_area_def enclosing_area_def fdiv_def fsub_def)
  show ?thesis
    using generalized_box_iou_checks_boxes [of "[(0, 0, 2, 2)]" "[(1, 1, 3, 3)]"]
      generalized_box_iou_checks_boxes [of "[(0, 0, 2, 2)]" "[(3, 1, 1, 3)]"] a b g
    by simp
qed

text \<open>
  Claim C7. Constructing the matcher fails with the configuration error if and only if
  the three weights are all zero; otherwise it returns the matcher holding the three
  weights. \<open>forward\<close> takes a constructed matcher, so the failure precedes any matching.
\<close>

theorem HungarianMatcher_init_fails_iff_all_zero:
  "(HungarianMatcher_init cc cb cg = Inl ConfigError) = (cc = 0 \<and> cb = 0 \<and> cg = 0)
   \<and> ((\<exists>m. HungarianMatcher_init cc cb cg = Inr m) = (cc \<noteq> 0 \<or> cb \<noteq> 0 \<or> cg \<noteq> 0))"
  by (simp add: HungarianMatcher_init_def)

theorem HungarianMatcher_init_fails_iff_all_zero_witness:
  "HungarianMatcher_init 0 0 0 = Inl ConfigError
   \<and> HungarianMatcher_init 1 1 1 \<noteq> Inl ConfigError
   \<and> HungarianMatcher_init 0 0 2 \<noteq> Inl ConfigError"
  using HungarianMatcher_init_fails_iff_all_zero [of 0 0 0]
    HungarianMatcher_init_fails_iff_all_zero [of 1 1 1]
    HungarianMatcher_init_fails_iff_all_zero [of 0 0 2]
  by simp

section \<open>The cast to float32: facts\<close>

lemma rne_bounds: "\<lfloor>x\<rfloor> \<le> rne x" "rne x \<le> \<lfloor>x\<rfloor> + 1"
  by (simp_all add: rne_def Let_def)

lemma rne_mono:
  assumes "a \<le> b"
  shows "rne a \<le> rne b"
proof (cases "\<lfloor>a\<rfloor> = \<lfloor>b\<rfloor>")
  case True
  have "a - of_int \<lfloor>a\<rfloor> \<le> b - of_int \<lfloor>b\<rfloor>" using assms True by simp
  then show ?thesis unfolding rne_def Let_def True by auto
next
  case False
  then have "\<lfloor>a\<rfloor> < \<lfloor>b\<rfloor>" using floor_mono [OF assms] by simp
  then have "rne a \<le> \<lfloor>b\<rfloor>" using rne_bounds(2) [of a] by simp
  then show ?thesis using rne_bounds(1) [of b] by simp
qed

lemma rne_of_int [simp]: "rne (of_int n) = n"
  by (simp add: rne_def)

lemma rne_numeral [simp]: "rne (numeral n) = numeral n"
  by (simp add: rne_def)

lemma rne_nonneg: "0 \<le> x \<Longrightarrow> 0 \<le> rne x"
  using rne_mono [of 0 x] rne_of_int [of 0] by simp

lemma float32_exponent_mono:
  assumes "0 < a" and "a \<le> b"
  shows "float32_exponent a \<le> float32_exponent b"
proof -
  have "log 2 a \<le> log 2 b" using assms by simp
  then have "\<lfloor>log 2 a\<rfloor> \<le> \<lfloor>log 2 b\<rfloor>" by (rule floor_mono)
  then show ?thesis unfolding float32_exponent_def by simp
qed

lemma powr_shift_24: "(2::real) powr (r + 1) = 16777216 * 2 powr (r - 23)"
proof -
  have "(2::real) powr (r + 1) = 2 powr (24 + (r - 23))"
    by (rule arg_cong [of _ _ "(powr) 2"]) simp
  also have "\<dots> = 2 powr 24 * 2 powr (r - 23)" by (simp only: powr_add)
  finally show ?thesis by simp
qed

lemma powr_shift_23: "(2::real) powr r = 8388608 * 2 powr (r - 23)"
proof -
  have "(2::real) powr r = 2 powr (23 + (r - 23))"
    by (rule arg_cong [of _ _ "(powr) 2"]) simp
  also have "\<dots> = 2 powr 23 * 2 powr (r - 23)" by (simp only: powr_add)
  finally show ?thesis by simp
qed

lemma round_float32_upper:
  assumes "0 < a"
  shows "round_float32 a \<le> 2 powr of_int (float32_exponent a + 1)"
proof -
  let ?e = "float32_exponent a"
  let ?u = "2 powr of_int (?e - 23) :: real"
  have u: "0 < ?u" by simp
  have "\<lfloor>log 2 a\<rfloor> \<le> ?e" unfolding float32_exponent_def by simp
  then have "log 2 a < of_int (?e + 1)" by linarith
  then have "a < 2 powr of_int (?e + 1)"
    using assms by (simp add: log_less_iff)
  also have "2 powr of_int (?e + 1) = 16777216 * ?u"
    using powr_shift_24 [of "of_int ?e"] by simp
  finally have "a / ?u < 16777216" using u by (simp add: field_simps)
  then have "a / ?u \<le> of_int (2 ^ 24)" by simp
  then have "rne (a / ?u) \<le> rne (of_int (2 ^ 24))" by (rule rne_mono)
  then have "of_int (rne (a / ?u)) \<le> (of_int (2 ^ 24) :: real)" by simp
  then have "of_int (rne (a / ?u)) * ?u \<le> of_int (2 ^ 24) * ?u"
    using u by (simp add: mult_right_mono)
  also have "of_int (2 ^ 24) * ?u = 2 powr of_int (?e + 1)"
    using powr_shift_24 [of "of_int ?e"] by simp
  finally show ?thesis unfolding round_float32_def Let_def .
qed

lemma round_float32_lower:
  assumes "0 < a" and "- 126 < float32_exponent a"
  shows "2 powr of_int (float32_exponent a) \<le> round_float32 a"
proof -
  let ?e = "float32_exponent a"
  let ?u = "2 powr of_int (?e - 23) :: real"
  have u: "0 < ?u" by simp
  have "?e = \<lfloor>log 2 a\<rfloor>" using assms(2) unfolding float32_exponent_def by simp
  then have "of_int ?e \<le> log 2 a" by simp
  then have "2 powr of_int ?e \<le> a"
    using assms(1) by (simp add: le_log_iff)
  moreover have sh: "2 powr of_int ?e = 8388608 * ?u"
    using powr_shift_23 [of "of_int ?e"] by simp
  ultimately have "8388608 \<le> a / ?u" using u by (simp add: field_simps)
  then have "of_int (2 ^ 23) \<le> a / ?u" by simp
  then have "rne (of_int (2 ^ 23)) \<le> rne (a / ?u)" by (rule rne_mono)
  then have "(of_int (2 ^ 23) :: real) \<le> of_int (rne (a / ?u))" by simp
  then have "of_int (2 ^ 23) * ?u \<le> of_int (rne (a / ?u)) * ?u"
    using u by (simp add: mult_right_mono)
  then show ?thesis unfolding round_float32_def Let_def using sh by simp
qed

lemma round_float32_nonneg: "0 \<le> a \<Longrightarrow> 0 \<le> round_float32 a"
  unfolding round_float32_def Let_def by (simp add: rne_nonneg)

lemma round_float32_mono:
  assumes "0 < a" and "a \<le> b"
  shows "round_float32 a \<le> round_float32 b"
proof (cases "float32_exponent a = float32_exponent b")
  case True
  let ?u = "2 powr of_int (float32_exponent b - 23) :: real"
  have u: "0 < ?u" by simp
  have "a / ?u \<le> b / ?u" using assms(2) u by (simp add: divide_right_mono)
  then have "rne (a / ?u) \<le> rne (b / ?u)" by (rule rne_mono)
  then have "of_int (rne (a / ?u)) * ?u \<le> of_int (rne (b / ?u)) * ?u"
    using u by (simp add: mult_right_mono)
  then show ?thesis unfolding round_float32_def Let_def True .
next
  case False
  then have lt: "float32_exponent a < float32_exponent b"
    using float32_exponent_mono [OF assms] by simp
  have "- 126 \<le> float32_exponent a" unfolding float32_exponent_def by simp
  then have b: "- 126 < float32_exponent b" using lt by simp
  have "round_float32 a \<le> 2 powr of_int (float32_exponent a + 1)"
    by (rule round_float32_upper [OF assms(1)])
  also have "\<dots> \<le> 2 powr of_int (float32_exponent b)"
    using lt by simp
  also have "\<dots> \<le> round_float32 b"
    by (rule round_float32_lower [OF _ b]) (use assms in simp)
  finally show ?thesis .
qed

lemma to_float32_mono:
  assumes "x \<le> y"
  shows "to_float32 x \<le> to_float32 y"
proof -
  consider (pp) "0 < x" | (nn) "y < 0" | (mid) "x \<le> 0" "0 \<le> y"
    using assms by linarith
  then show ?thesis
  proof cases
    case pp
    then show ?thesis
      using round_float32_mono [OF pp assms] assms by (simp add: to_float32_def)
  next
    case nn
    then have "round_float32 (- y) \<le> round_float32 (- x)"
      using assms by (intro round_float32_mono) simp_all
    then show ?thesis using nn assms by (simp add: to_float32_def)
  next
    case mid
    have "to_float32 x \<le> 0"
      using mid(1) round_float32_nonneg [of "- x"] by (simp add: to_float32_def)
    moreover have "0 \<le> to_float32 y"
      using mid(2) round_float32_nonneg [of y] by (simp add: to_float32_def)
    ultimately show ?thesis by simp
  qed
qed

lemma to_float32_eval:
  assumes "0 < x" and "2 powr of_int e \<le> x" and "x < 2 powr of_int (e + 1)"
    and "- 126 \<le> e"
  shows "to_float32 x = of_int (rne (x / 2 powr of_int (e - 23))) * 2 powr of_int (e - 23)"
proof -
  have "\<lfloor>log 2 x\<rfloor> = e"
    using assms(1,2,3) by (simp add: floor_log_eq_powr_iff)
  then have "float32_exponent x = e"
    unfolding float32_exponent_def using assms(4) by simp
  then show ?thesis
    using assms(1) by (simp add: to_float32_def round_float32_def Let_def)
qed

lemma to_float32_half: "to_float32 (1 / 2) = 1 / 2"
proof -
  have "to_float32 (1 / 2)
      = of_int (rne ((1 / 2) / 2 powr of_int (- 1 - 23))) * 2 powr of_int (- 1 - 23)"
    by (rule to_float32_eval) (simp_all add: powr_minus)
  also have "(2::real) powr of_int (- 1 - 23) = 1 / 2 ^ 24"
    by (simp add: powr_minus inverse_eq_divide)
  finally show ?thesis by (simp add: rne_def)
qed


section \<open>The thresholding stage of \<open>PostProcess\<close>: facts\<close>




lemma mask_select_nth:
  assumes "length xs = length msk"
  shows "mask_select xs msk = Inr (map (\<lambda>i. xs ! i) (filter (\<lambda>i. msk ! i) [0..<length xs]))"
proof -
  have "zip xs msk = map (\<lambda>i. (xs ! i, msk ! i)) [0..<length xs]"
    using assms by (intro nth_equalityI) auto
  then have "map fst (filter snd (zip xs msk))
      = map (\<lambda>i. xs ! i) (filter (\<lambda>i. msk ! i) [0..<length xs])"
    by (simp add: filter_map comp_def)
  then show ?thesis using assms by (simp add: mask_select_def)
qed

lemma length_softmax [simp]: "length (softmax xs) = length xs"
  by (simp add: softmax_def)

lemma torch_max_dim1_scores:
  "torch_max_dim1 (map (\<lambda>row. butlast (softmax row)) pc)
     = (if \<exists>r \<in> set pc. length r \<le> 1 then Inl IndexError
        else Inr (map query_score pc, map query_class pc))"
proof -
  have "(butlast (softmax r) = []) = (length r \<le> 1)" for r
    by (metis length_butlast length_softmax length_0_conv diff_is_0_eq)
  moreover from this have "([] = butlast (softmax r)) = (length r \<le> 1)" for r
    by (metis (full_types))
  ultimately have "(\<exists>r \<in> set (map (\<lambda>row. butlast (softmax row)) pc). r = [])
      = (\<exists>r \<in> set pc. length r \<le> 1)"
    by (simp add: image_iff del: One_nat_def)
  then show ?thesis
    unfolding torch_max_dim1_def
    by (simp add: query_score_def query_class_def comp_def del: One_nat_def set_map)
qed

lemma threshold_stage_eq:
  "threshold_stage self pb pc =
     (if \<exists>r \<in> set pc. length r \<le> 1 then Inl IndexError
      else if length pb \<noteq> length pc then Inl IndexError
      else Inr (map (\<lambda>q. pb ! q) (survivors self pc),
                map (\<lambda>q. query_class (pc ! q)) (survivors self pc),
                map (\<lambda>q. query_score (pc ! q)) (survivors self pc)))"
proof -
  let ?idx = "map (\<lambda>s. s > to_float32 (confidence_threshold self)) (map query_score pc)"
  have sel: "filter (\<lambda>i. ?idx ! i) [0..<length pc] = survivors self pc"
    unfolding survivors_def by (rule filter_cong) auto
  have s: "mask_select (map query_score pc) ?idx
       = Inr (map (\<lambda>q. query_score (pc ! q)) (survivors self pc))"
    using mask_select_nth [of "map query_score pc" ?idx] sel
    by (simp add: survivors_def cong: map_cong)
  have c: "mask_select (map query_class pc) ?idx
       = Inr (map (\<lambda>q. query_class (pc ! q)) (survivors self pc))"
    using mask_select_nth [of "map query_class pc" ?idx] sel
    by (simp add: survivors_def cong: map_cong)
  have b: "mask_select pb ?idx = Inr (map (\<lambda>q. pb ! q) (survivors self pc))"
    if "length pb = length pc"
    using mask_select_nth [of pb ?idx] sel that by simp
  have b': "mask_select pb ?idx = Inl IndexError" if "length pb \<noteq> length pc"
    using that by (simp add: mask_select_def)
  show ?thesis
    unfolding threshold_stage_def Let_def torch_max_dim1_scores
    using s c b b' by (auto simp: bind_err_def)
qed





section \<open>Greedy suppression: facts\<close>

lemma greedy_keep_set: "set (greedy_keep supp xs) \<subseteq> set xs"
  by (induction supp xs rule: greedy_keep.induct) auto

lemma greedy_keep_distinct: "distinct xs \<Longrightarrow> distinct (greedy_keep supp xs)"
proof (induction supp xs rule: greedy_keep.induct)
  case (1 supp)
  then show ?case by simp
next
  case (2 supp i rest)
  have "i \<notin> set (greedy_keep supp (filter (\<lambda>j. \<not> supp i j) rest))"
    using "2.prems" greedy_keep_set [of supp "filter (\<lambda>j. \<not> supp i j) rest"] by auto
  then show ?case using 2 by simp
qed

lemma greedy_keep_sorted:
  "sorted (map f xs) \<Longrightarrow> sorted (map f (greedy_keep supp xs))"
proof (induction supp xs rule: greedy_keep.induct)
  case (1 supp)
  then show ?case by simp
next
  case (2 supp i rest)
  have "sorted (map f (filter (\<lambda>j. \<not> supp i j) rest))"
    using "2.prems" by (simp add: sorted_filter)
  then have "sorted (map f (greedy_keep supp (filter (\<lambda>j. \<not> supp i j) rest)))"
    by (rule "2.IH")
  moreover have "\<forall>y \<in> set (greedy_keep supp (filter (\<lambda>j. \<not> supp i j) rest)). f i \<le> f y"
    using "2.prems" greedy_keep_set [of supp "filter (\<lambda>j. \<not> supp i j) rest"] by auto
  ultimately show ?case by simp
qed

lemma greedy_keep_unsuppressed:
  "sorted_wrt (\<lambda>a b. \<not> supp a b) (greedy_keep supp xs)"
proof (induction supp xs rule: greedy_keep.induct)
  case (1 supp)
  show ?case by simp
next
  case (2 supp i rest)
  let ?K = "greedy_keep supp (filter (\<lambda>j. \<not> supp i j) rest)"
  have a: "\<forall>y \<in> set ?K. \<not> supp i y"
    using greedy_keep_set [of supp "filter (\<lambda>j. \<not> supp i j) rest"] by auto
  have b: "sorted_wrt (\<lambda>a b. \<not> supp a b) ?K" by (rule "2.IH")
  show ?case
    unfolding greedy_keep.simps sorted_wrt.simps using a b by blast
qed

lemma greedy_keep_fixed:
  "sorted_wrt (\<lambda>a b. \<not> supp a b) xs \<Longrightarrow> greedy_keep supp xs = xs"
proof (induction xs)
  case Nil
  then show ?case by simp
next
  case (Cons x xs)
  then have "filter (\<lambda>j. \<not> supp x j) xs = xs" by (auto intro: filter_True)
  then show ?case using Cons by simp
qed

lemma greedy_keep_map:
  "(\<And>a b. a \<in> set xs \<Longrightarrow> b \<in> set xs \<Longrightarrow> supp' (g a) (g b) = supp a b)
     \<Longrightarrow> greedy_keep supp' (map g xs) = map g (greedy_keep supp xs)"
proof (induction supp xs rule: greedy_keep.induct)
  case (1 supp)
  then show ?case by simp
next
  case (2 supp i rest)
  have "filter (\<lambda>j. \<not> supp' (g i) (g j)) rest = filter (\<lambda>j. \<not> supp i j) rest"
    by (rule filter_cong) (simp_all add: "2.prems")
  then have f: "filter (\<lambda>j. \<not> supp' (g i) j) (map g rest)
             = map g (filter (\<lambda>j. \<not> supp i j) rest)"
    by (simp add: filter_map comp_def)
  have "greedy_keep supp' (map g (filter (\<lambda>j. \<not> supp i j) rest))
          = map g (greedy_keep supp (filter (\<lambda>j. \<not> supp i j) rest))"
    by (rule "2.IH") (use "2.prems" in auto)
  then show ?case using f by simp
qed

lemma greedy_keep_append:
  "greedy_keep supp (ys @ zs)
     = greedy_keep supp ys
       @ greedy_keep supp (filter (\<lambda>z. \<forall>k \<in> set (greedy_keep supp ys). \<not> supp k z) zs)"
proof (induction supp ys arbitrary: zs rule: greedy_keep.induct)
  case (1 supp)
  then show ?case by simp
next
  case (2 supp i rest)
  let ?K = "greedy_keep supp (filter (\<lambda>j. \<not> supp i j) rest)"
  have "filter (\<lambda>z. \<forall>k \<in> set ?K. \<not> supp k z) (filter (\<lambda>j. \<not> supp i j) zs)
          = filter (\<lambda>z. \<forall>k \<in> set (i # ?K). \<not> supp k z) zs"
    unfolding filter_filter by (rule filter_cong) auto
  then show ?case
    using "2.IH" [of "filter (\<lambda>j. \<not> supp i j) zs"] by simp
qed

lemma greedy_keep_prefix_length:
  "length (greedy_keep supp ys) \<le> length (greedy_keep supp (ys @ zs))"
  by (simp add: greedy_keep_append)

lemma insort_key_map:
  "insort_key f (g x) (map g xs) = map g (insort_key (\<lambda>a. f (g a)) x xs)"
  by (induction xs) simp_all

lemma sort_key_map:
  "sort_key f (map g xs) = map g (sort_key (\<lambda>a. f (g a)) xs)"
  by (induction xs) (simp_all add: insort_key_map)

lemma sorted_filter_takeWhile:
  fixes f :: "'a \<Rightarrow> real"
  shows "sorted (map f xs) \<Longrightarrow> filter (\<lambda>x. f x < c) xs = takeWhile (\<lambda>x. f x < c) xs"
proof (induction xs)
  case Nil
  then show ?case by simp
next
  case (Cons x xs)
  show ?case
  proof (cases "f x < c")
    case True
    then show ?thesis using Cons by simp
  next
    case False
    then have "\<forall>y \<in> set xs. \<not> f y < c" using Cons.prems by auto
    then have "filter (\<lambda>x. f x < c) xs = []" by (simp add: filter_empty_conv)
    then show ?thesis using False by simp
  qed
qed

section \<open>\<open>PostProcess\<close>: facts\<close>

lemma insort_key_cong_set:
  "f x = g x \<Longrightarrow> (\<And>y. y \<in> set xs \<Longrightarrow> f y = g y) \<Longrightarrow> insort_key f x xs = insort_key g x xs"
  by (induction xs) simp_all

lemma sort_key_cong_set:
  "(\<And>y. y \<in> set xs \<Longrightarrow> f y = g y) \<Longrightarrow> sort_key f xs = sort_key g xs"
proof (induction xs)
  case Nil
  show ?case by simp
next
  case (Cons x xs)
  have "sort_key f xs = sort_key g xs" by (rule Cons.IH) (simp add: Cons.prems)
  moreover have "insort_key f x (sort_key g xs) = insort_key g x (sort_key g xs)"
    by (rule insort_key_cong_set) (simp_all add: Cons.prems)
  ultimately show ?case by simp
qed

lemma nms_selection:
  fixes B :: "nat \<Rightarrow> box" and S :: "nat \<Rightarrow> real"
  shows "\<exists>idx. nms (map B sel) (map S sel) thr = Inr idx
           \<and> map (\<lambda>p. sel ! p) idx
               = greedy_keep (\<lambda>a b. suppresses thr (B a) (B b)) (sort_key (\<lambda>q. - S q) sel)
           \<and> distinct idx \<and> (\<forall>p \<in> set idx. p < length sel)"
proof -
  let ?n = "length sel"
  let ?key = "\<lambda>i. - (map S sel ! i)"
  let ?supp = "\<lambda>i j. suppresses thr (map B sel ! i) (map B sel ! j)"
  let ?ord = "sort_key ?key [0..<?n]"
  let ?idx = "greedy_keep ?supp ?ord"
  have n: "nms (map B sel) (map S sel) thr = Inr ?idx"
    by (simp add: nms_def)
  have sub: "set ?idx \<subseteq> {0..<?n}"
    using greedy_keep_set [of ?supp ?ord] by simp
  have dist: "distinct ?idx"
    by (rule greedy_keep_distinct) simp
  have ord: "map (\<lambda>p. sel ! p) ?ord = sort_key (\<lambda>q. - S q) sel"
  proof -
    have "?ord = sort_key (\<lambda>a. - S (sel ! a)) [0..<?n]"
      by (rule sort_key_cong_set) simp
    then have "map (\<lambda>p. sel ! p) ?ord = sort_key (\<lambda>q. - S q) (map (\<lambda>p. sel ! p) [0..<?n])"
      by (simp only: sort_key_map)
    then show ?thesis by (simp only: map_nth)
  qed
  have "greedy_keep (\<lambda>a b. suppresses thr (B a) (B b)) (map (\<lambda>p. sel ! p) ?ord)
          = map (\<lambda>p. sel ! p) ?idx"
    by (rule greedy_keep_map) simp
  then have "map (\<lambda>p. sel ! p) ?idx
      = greedy_keep (\<lambda>a b. suppresses thr (B a) (B b)) (sort_key (\<lambda>q. - S q) sel)"
    by (simp only: ord)
  then show ?thesis using n sub dist by auto
qed

lemma index_select_map:
  "\<forall>p \<in> set idx. p < length sel
     \<Longrightarrow> index_select (map F sel) idx = Inr (map F (map (\<lambda>p. sel ! p) idx))"
  by (simp add: index_select_def list_all_iff)

lemma post_process_eq:
  "post_process self pb pc =
     (if \<exists>r \<in> set pc. length r \<le> 1 then Inl IndexError
      else if length pb \<noteq> length pc then Inl IndexError
      else Inr (map (\<lambda>q. pb ! q) (kept self pb pc),
                map (\<lambda>q. query_class (pc ! q)) (kept self pb pc),
                map (\<lambda>q. query_score (pc ! q)) (kept self pb pc)))"
proof -
  let ?sel = "survivors self pc"
  obtain idx where idx:
    "nms (map (\<lambda>q. pb ! q) ?sel) (map (\<lambda>q. query_score (pc ! q)) ?sel) (iou_threshold self)
       = Inr idx"
    "map (\<lambda>p. ?sel ! p) idx = kept self pb pc"
    "\<forall>p \<in> set idx. p < length ?sel"
    using nms_selection [of "\<lambda>q. pb ! q" ?sel "\<lambda>q. query_score (pc ! q)" "iou_threshold self"]
    unfolding kept_def by blast
  have "nms_stage self (map (\<lambda>q. pb ! q) ?sel, map (\<lambda>q. query_class (pc ! q)) ?sel,
                        map (\<lambda>q. query_score (pc ! q)) ?sel)
      = Inr (map (\<lambda>q. pb ! q) (kept self pb pc),
             map (\<lambda>q. query_class (pc ! q)) (kept self pb pc),
             map (\<lambda>q. query_score (pc ! q)) (kept self pb pc))"
    unfolding nms_stage_def prod.case idx(1)
    by (simp only: bind_err_def sum.case index_select_map [OF idx(3)] idx(2))
  then show ?thesis
    unfolding post_process_def threshold_stage_eq
    by (simp add: bind_err_def del: One_nat_def)
qed

lemma kept_distinct: "distinct (kept self pb pc)"
  unfolding kept_def by (rule greedy_keep_distinct) (simp add: survivors_def)

lemma kept_in_range: "q \<in> set (kept self pb pc) \<Longrightarrow> q < length pc"
proof -
  assume "q \<in> set (kept self pb pc)"
  then have "q \<in> set (sort_key (\<lambda>q. - query_score (pc ! q)) (survivors self pc))"
    unfolding kept_def using greedy_keep_set by fastforce
  then show ?thesis by (simp add: survivors_def)
qed

lemma kept_length: "length (kept self pb pc) \<le> length pc"
proof -
  have "length (kept self pb pc) = card (set (kept self pb pc))"
    by (simp add: distinct_card kept_distinct)
  also have "\<dots> \<le> card {0..<length pc}"
    by (rule card_mono) (auto dest: kept_in_range)
  finally show ?thesis by simp
qed

lemma survivors_raise:
  assumes "confidence_threshold self1 \<le> confidence_threshold self2"
  shows "survivors self2 pc
           = filter (\<lambda>q. - query_score (pc ! q) < - to_float32 (confidence_threshold self2))
               (survivors self1 pc)"
  unfolding survivors_def filter_filter
  by (rule filter_cong) (use to_float32_mono [OF assms] in auto)

lemma kept_monotone:
  assumes "confidence_threshold self1 \<le> confidence_threshold self2"
    and "iou_threshold self1 = iou_threshold self2"
  shows "length (kept self2 pb pc) \<le> length (kept self1 pb pc)"
proof -
  let ?key = "\<lambda>q. - query_score (pc ! q)"
  let ?P = "\<lambda>q. ?key q < - to_float32 (confidence_threshold self2)"
  let ?S1 = "sort_key ?key (survivors self1 pc)"
  let ?supp = "\<lambda>a b. suppresses (iou_threshold self2) (pb ! a) (pb ! b)"
  have "sort_key ?key (survivors self2 pc) = filter ?P ?S1"
    by (simp only: survivors_raise [OF assms(1)] filter_sort)
  also have "\<dots> = takeWhile ?P ?S1"
    by (rule sorted_filter_takeWhile) simp
  finally have S2: "sort_key ?key (survivors self2 pc) = takeWhile ?P ?S1" .
  have "length (greedy_keep ?supp (takeWhile ?P ?S1))
          \<le> length (greedy_keep ?supp (takeWhile ?P ?S1 @ dropWhile ?P ?S1))"
    by (rule greedy_keep_prefix_length)
  then show ?thesis
    unfolding kept_def S2 assms(2) by (simp only: takeWhile_dropWhile_id)
qed

lemma PostProcess_call_Inr:
  assumes "PostProcess_call self apb pcs = Some (Inr (bs, cs, ss))"
  shows "\<exists>pb pc. apb = [pb] \<and> pcs = [pc] \<and> length pb = length pc
           \<and> (\<forall>r \<in> set pc. 2 \<le> length r)
           \<and> bs = [map (\<lambda>q. pb ! q) (kept self pb pc)]
           \<and> cs = [map (\<lambda>q. query_class (pc ! q)) (kept self pb pc)]
           \<and> ss = [map (\<lambda>q. query_score (pc ! q)) (kept self pb pc)]"
proof -
  obtain pb where pb: "apb = [pb]"
    using assms unfolding PostProcess_call_def
    by (cases apb rule: squeeze0.cases) (auto split: option.splits)
  obtain pc where pc: "pcs = [pc]"
    using assms unfolding PostProcess_call_def
    by (cases pcs rule: squeeze0.cases) (auto split: option.splits)
  have call: "bind_err (post_process self pb pc) (\<lambda>(b, c, s). Inr ([b], [c], [s]))
               = Inr (bs, cs, ss)"
    using assms unfolding PostProcess_call_def pb pc by simp
  have ok: "\<not> (\<exists>r \<in> set pc. length r \<le> 1)" "length pb = length pc"
    using call unfolding post_process_eq bind_err_def
    by (auto split: if_splits simp del: One_nat_def)
  then have rows: "\<forall>r \<in> set pc. 2 \<le> length r" by fastforce
  have "bs = [map (\<lambda>q. pb ! q) (kept self pb pc)]
           \<and> cs = [map (\<lambda>q. query_class (pc ! q)) (kept self pb pc)]
           \<and> ss = [map (\<lambda>q. query_score (pc ! q)) (kept self pb pc)]"
    using call ok unfolding post_process_eq bind_err_def
    by (simp del: One_nat_def)
  then show ?thesis using pb pc ok(2) rows by blast
qed

lemma PostProcess_call_ok:
  assumes "length pb = length pc" and "\<forall>r \<in> set pc. 2 \<le> length r"
  shows "PostProcess_call self [pb] [pc]
           = Some (Inr ([map (\<lambda>q. pb ! q) (kept self pb pc)],
                        [map (\<lambda>q. query_class (pc ! q)) (kept self pb pc)],
                        [map (\<lambda>q. query_score (pc ! q)) (kept self pb pc)]))"
proof -
  have "\<not> (\<exists>r \<in> set pc. length r \<le> 1)" using assms(2) by fastforce
  then show ?thesis
    unfolding PostProcess_call_def post_process_eq using assms(1)
    by (simp add: bind_err_def del: One_nat_def)
qed

text \<open>
  Claim C10. Whenever \<open>PostProcess.__call__\<close> returns, on boxes of shape \<open>[1, Q, 4]\<close>
  and logits of shape \<open>[1, Q, C + 1]\<close>, there is one list of distinct query indices, all
  below \<open>Q\<close> and at most \<open>Q\<close> of them, such that the returned boxes, classes and scores
  are the box, the class and the score of these queries, position by position: the three
  sequences have the same length and stay in lock-step through both stages.
\<close>

theorem PostProcess_call_lockstep:
  assumes "PostProcess_call self all_pred_boxes pred_classes = Some (Inr (bs, cs, ss))"
  shows "\<exists>pb pc idxs. all_pred_boxes = [pb] \<and> pred_classes = [pc]
           \<and> length pb = length pc
           \<and> distinct idxs \<and> (\<forall>q \<in> set idxs. q < length pc) \<and> length idxs \<le> length pc
           \<and> bs = [map (\<lambda>q. pb ! q) idxs]
           \<and> cs = [map (\<lambda>q. query_class (pc ! q)) idxs]
           \<and> ss = [map (\<lambda>q. query_score (pc ! q)) idxs]"
proof -
  from PostProcess_call_Inr [OF assms] obtain pb pc where
    h: "all_pred_boxes = [pb]" "pred_classes = [pc]" "length pb = length pc"
       "bs = [map (\<lambda>q. pb ! q) (kept self pb pc)]"
       "cs = [map (\<lambda>q. query_class (pc ! q)) (kept self pb pc)]"
       "ss = [map (\<lambda>q. query_score (pc ! q)) (kept self pb pc)]"
    by blast
  have "distinct (kept self pb pc)" by (rule kept_distinct)
  moreover have "\<forall>q \<in> set (kept self pb pc). q < length pc"
    using kept_in_range by blast
  moreover have "length (kept self pb pc) \<le> length pc" by (rule kept_length)
  ultimately show ?thesis using h by blast
qed

theorem PostProcess_call_lockstep_witness:
  "PostProcess_call \<lparr>confidence_threshold = 1/2, iou_threshold = 3/10\<rparr>
      [[(0, 0, 10, 10), (0, 0, 10, 10), (20, 20, 30, 30)]]
      [[[ln 3, 0], [ln 9, 0], [ln (3/2), 0]]]
     = Some (Inr ([[(0, 0, 10, 10), (20, 20, 30, 30)]], [[0, 0]], [[9/10, 3/5]]))
   \<and> (\<exists>pb pc idxs.
         ([[(0, 0, 10, 10), (0, 0, 10, 10), (20, 20, 30, 30)]] :: box list list) = [pb]
         \<and> [[[ln 3, 0], [ln 9, 0], [ln (3/2), 0]]] = [pc]
         \<and> length pb = length pc
         \<and> distinct idxs \<and> (\<forall>q \<in> set idxs. q < length pc) \<and> length idxs \<le> length pc
         \<and> ([[(0, 0, 10, 10), (20, 20, 30, 30)]] :: box list list) = [map (\<lambda>q. pb ! q) idxs]
         \<and> ([[0, 0]] :: nat list list) = [map (\<lambda>q. query_class (pc ! q)) idxs]
         \<and> ([[9/10, 3/5]] :: real list list) = [map (\<lambda>q. query_score (pc ! q)) idxs])"
proof -
  have h: "PostProcess_call \<lparr>confidence_threshold = 1/2, iou_threshold = 3/10\<rparr>
      [[(0, 0, 10, 10), (0, 0, 10, 10), (20, 20, 30, 30)]]
      [[[ln 3, 0], [ln 9, 0], [ln (3/2), 0]]]
     = Some (Inr ([[(0, 0, 10, 10), (20, 20, 30, 30)]], [[0, 0]], [[9/10, 3/5]]))"
    by (simp add: PostProcess_call_def post_process_def threshold_stage_def nms_stage_def
        nms_def softmax_def torch_max_dim1_def mask_select_def index_select_def bind_err_def
        suppresses_def iou_pair_def fdiv_def inter_pair_def union_pair_def box_area_def
        upt_rec to_float32_half)
  show ?thesis
    by (rule conjI [OF h PostProcess_call_lockstep [OF h]])
qed

text \<open>
  Claim C8. For fixed boxes and logits and a fixed IoU threshold, if the call returns with
  confidence threshold \<open>t1\<close> then it returns with any threshold \<open>t2 \<ge> t1\<close> too, and
  with at most as many detections: raising the confidence threshold never increases the
  number of detections that survive thresholding and suppression.
\<close>

theorem PostProcess_call_threshold_monotone:
  assumes "confidence_threshold self1 \<le> confidence_threshold self2"
    and "iou_threshold self1 = iou_threshold self2"
    and "PostProcess_call self1 all_pred_boxes pred_classes = Some (Inr (bs1, cs1, ss1))"
  shows "\<exists>b1 c1 s1 b2 c2 s2.
           bs1 = [b1] \<and> cs1 = [c1] \<and> ss1 = [s1]
           \<and> PostProcess_call self2 all_pred_boxes pred_classes = Some (Inr ([b2], [c2], [s2]))
           \<and> length b2 \<le> length b1 \<and> length c2 \<le> length c1 \<and> length s2 \<le> length s1"
proof -
  from PostProcess_call_Inr [OF assms(3)] obtain pb pc where
    h: "all_pred_boxes = [pb]" "pred_classes = [pc]" "length pb = length pc"
       "\<forall>r \<in> set pc. 2 \<le> length r"
       "bs1 = [map (\<lambda>q. pb ! q) (kept self1 pb pc)]"
       "cs1 = [map (\<lambda>q. query_class (pc ! q)) (kept self1 pb pc)]"
       "ss1 = [map (\<lambda>q. query_score (pc ! q)) (kept self1 pb pc)]"
    by blast
  have le: "length (kept self2 pb pc) \<le> length (kept self1 pb pc)"
    by (rule kept_monotone [OF assms(1,2)])
  show ?thesis
    using h(5,6,7) le unfolding h(1,2) PostProcess_call_ok [OF h(3,4)]
    by simp
qed



theorem PostProcess_call_threshold_monotone_witness:
  "PostProcess_call \<lparr>confidence_threshold = 1/2, iou_threshold = 3/10\<rparr>
      [[(0, 0, 10, 10), (0, 0, 10, 10), (20, 20, 30, 30)]]
      [[[ln 3, 0], [ln 9, 0], [ln (3/2), 0]]]
     = Some (Inr ([[(0, 0, 10, 10), (20, 20, 30, 30)]], [[0, 0]], [[9/10, 3/5]]))
   \<and> (\<exists>b1 c1 s1 b2 c2 s2.
         ([[(0, 0, 10, 10), (20, 20, 30, 30)]] :: box list list) = [b1]
         \<and> ([[0, 0]] :: nat list list) = [c1] \<and> ([[9/10, 3/5]] :: real list list) = [s1]
         \<and> PostProcess_call \<lparr>confidence_threshold = 7/10, iou_threshold = 3/10\<rparr>
              [[(0, 0, 10, 10), (0, 0, 10, 10), (20, 20, 30, 30)]]
              [[[ln 3, 0], [ln 9, 0], [ln (3/2), 0]]]
            = Some (Inr ([b2], [c2], [s2]))
         \<and> length b2 \<le> length b1 \<and> length c2 \<le> length c1 \<and> length s2 \<le> length s1)"
proof -
  let ?p1 = "\<lparr>confidence_threshold = 1/2, iou_threshold = 3/10\<rparr>"
  let ?p2 = "\<lparr>confidence_threshold = 7/10, iou_threshold = 3/10\<rparr>"
  have le: "confidence_threshold ?p1 \<le> confidence_threshold ?p2" by simp
  have eq: "iou_threshold ?p1 = iou_threshold ?p2" by simp
  have h: "PostProcess_call ?p1
      [[(0, 0, 10, 10), (0, 0, 10, 10), (20, 20, 30, 30)]]
      [[[ln 3, 0], [ln 9, 0], [ln (3/2), 0]]]
     = Some (Inr ([[(0, 0, 10, 10), (20, 20, 30, 30)]], [[0, 0]], [[9/10, 3/5]]))"
    by (simp add: PostProcess_call_def post_process_def threshold_stage_def nms_stage_def
        nms_def softmax_def torch_max_dim1_def mask_select_def index_select_def bind_err_def
        suppresses_def iou_pair_def fdiv_def inter_pair_def union_pair_def box_area_def
        upt_rec to_float32_half)
  show ?thesis
    by (rule conjI [OF h PostProcess_call_threshold_monotone [OF le eq h]])
qed

lemma nms_stage_Inr:
  assumes "nms_stage self (bs, cs, ss) = Inr st'"
  obtains idx where "nms bs ss (iou_threshold self) = Inr idx"
    "st' = (map (\<lambda>i. bs ! i) idx, map (\<lambda>i. cs ! i) idx, map (\<lambda>i. ss ! i) idx)"
proof -
  obtain idx where idx: "nms bs ss (iou_threshold self) = Inr idx"
    using assms unfolding nms_stage_def bind_err_def
    by (cases "nms bs ss (iou_threshold self)") auto
  have "st' = (map (\<lambda>i. bs ! i) idx, map (\<lambda>i. cs ! i) idx, map (\<lambda>i. ss ! i) idx)"
    using assms idx
    by (auto simp: nms_stage_def bind_err_def index_select_def split: if_splits)
  then show thesis using that idx by blast
qed

lemma nms_fixed:
  assumes "nms bs ss thr = Inr idx"
  shows "nms (map (\<lambda>i. bs ! i) idx) (map (\<lambda>i. ss ! i) idx) thr = Inr [0..<length idx]"
proof -
  let ?key = "\<lambda>i. - (ss ! i)"
  let ?supp = "\<lambda>a b. suppresses thr (bs ! a) (bs ! b)"
  have idx: "idx = greedy_keep ?supp (sort_key ?key [0..<length ss])"
    using assms unfolding nms_def by (auto split: if_splits)
  have dist: "distinct idx"
    unfolding idx by (rule greedy_keep_distinct) simp
  have "sorted (map ?key idx)"
    unfolding idx by (rule greedy_keep_sorted) simp
  then have srt: "sort_key ?key idx = idx"
    by (rule sort_key_id_if_sorted)
  have "sorted_wrt (\<lambda>a b. \<not> ?supp a b) idx"
    unfolding idx by (rule greedy_keep_unsuppressed)
  then have fx: "greedy_keep ?supp idx = idx"
    by (rule greedy_keep_fixed)
  obtain idx2 where i2:
    "nms (map (\<lambda>i. bs ! i) idx) (map (\<lambda>i. ss ! i) idx) thr = Inr idx2"
    "map (\<lambda>p. idx ! p) idx2 = greedy_keep ?supp (sort_key ?key idx)"
    "\<forall>p \<in> set idx2. p < length idx"
    using nms_selection [of "\<lambda>i. bs ! i" idx "\<lambda>i. ss ! i" thr] by blast
  have "map (\<lambda>p. idx ! p) idx2 = map (\<lambda>p. idx ! p) [0..<length idx]"
    using i2(2) by (simp only: srt fx map_nth)
  moreover have "inj_on (\<lambda>p. idx ! p) (set idx2 \<union> set [0..<length idx])"
    by (rule inj_on_nth [OF dist]) (use i2(3) in auto)
  ultimately have "idx2 = [0..<length idx]"
    by (rule map_inj_on)
  then show ?thesis using i2(1) by simp
qed

text \<open>
  Claim C9. The suppression step (lines 302-306) is idempotent: whenever it returns on
  boxes, classes and scores, running it again on what it returned gives the same boxes,
  classes and scores back.
\<close>

theorem nms_stage_idempotent:
  assumes "nms_stage self st = Inr st'"
  shows "nms_stage self st' = Inr st'"
proof -
  obtain bs cs ss where st: "st = (bs, cs, ss)" by (cases st)
  from nms_stage_Inr [OF assms [unfolded st]] obtain idx where
    idx: "nms bs ss (iou_threshold self) = Inr idx"
    and st': "st' = (map (\<lambda>i. bs ! i) idx, map (\<lambda>i. cs ! i) idx, map (\<lambda>i. ss ! i) idx)"
    by blast
  have sel: "index_select (map f idx) [0..<length idx] = Inr (map f idx)" for f :: "nat \<Rightarrow> 'b"
  proof -
    have "map (\<lambda>i. map f idx ! i) [0..<length idx] = map f idx"
      using map_nth [of "map f idx"] by simp
    then show ?thesis
      unfolding index_select_def by (simp add: list_all_iff)
  qed
  show ?thesis
    unfolding st' nms_stage_def prod.case nms_fixed [OF idx]
    by (simp only: bind_err_def sum.case sel)
qed

theorem nms_stage_idempotent_witness:
  "nms_stage \<lparr>confidence_threshold = 1/2, iou_threshold = 3/10\<rparr>
      ([(0, 0, 10, 10), (0, 0, 10, 10), (20, 20, 30, 30)], [0, 0, 0], [3/4, 9/10, 3/5])
     = Inr ([(0, 0, 10, 10), (20, 20, 30, 30)], [0, 0], [9/10, 3/5])
   \<and> nms_stage \<lparr>confidence_threshold = 1/2, iou_threshold = 3/10\<rparr>
      ([(0, 0, 10, 10), (20, 20, 30, 30)], [0, 0], [9/10, 3/5])
     = Inr ([(0, 0, 10, 10), (20, 20, 30, 30)], [0, 0], [9/10, 3/5])"
proof -
  have h: "nms_stage \<lparr>confidence_threshold = 1/2, iou_threshold = 3/10\<rparr>
      ([(0, 0, 10, 10), (0, 0, 10, 10), (20, 20, 30, 30)], [0, 0, 0], [3/4, 9/10, 3/5])
     = Inr ([(0, 0, 10, 10), (20, 20, 30, 30)], [0, 0], [9/10, 3/5])"
    by (simp add: nms_stage_def nms_def index_select_def bind_err_def
        suppresses_def iou_pair_def fdiv_def inter_pair_def union_pair_def box_area_def upt_rec)
  show ?thesis
    by (rule conjI [OF h nms_stage_idempotent [OF h]])
qed

section \<open>The assignment solver: facts\<close>

lemma matchings_sound:
  "m \<in> set (matchings rows cols k) \<Longrightarrow> sorted_wrt (<) rows \<Longrightarrow> distinct cols
     \<Longrightarrow> length m = k \<and> sorted_wrt (<) (map fst m) \<and> set (map fst m) \<subseteq> set rows
         \<and> distinct (map snd m) \<and> set (map snd m) \<subseteq> set cols"
proof (induction rows cols k arbitrary: m rule: matchings.induct)
  case (1 rows cols)
  then show ?case by simp
next
  case (2 cols k)
  then show ?case by simp
next
  case (3 r rows cols k)
  have srt: "sorted_wrt (<) rows" and gt: "\<forall>x \<in> set rows. r < x"
    using "3.prems"(2) by simp_all
  consider (take) c m' where "c \<in> set cols" "m = (r, c) # m'"
      "m' \<in> set (matchings rows (remove1 c cols) k)"
    | (skip) "m \<in> set (matchings rows cols (Suc k))"
    using "3.prems"(1) by auto
  then show ?case
  proof cases
    case take
    have ih: "length m' = k \<and> sorted_wrt (<) (map fst m') \<and> set (map fst m') \<subseteq> set rows
         \<and> distinct (map snd m') \<and> set (map snd m') \<subseteq> set (remove1 c cols)"
      by (rule "3.IH"(1) [OF take(1,3) srt]) (simp add: "3.prems"(3))
    have rem: "set (remove1 c cols) = set cols - {c}"
      using "3.prems"(3) by simp
    have "\<forall>x \<in> set (map fst m'). r < x" using ih gt by blast
    moreover have "c \<notin> set (map snd m')" using ih rem by blast
    moreover have "set (map snd m') \<subseteq> set cols" using ih rem by blast
    ultimately show ?thesis using ih take(1,2) by auto
  next
    case skip
    have "length m = Suc k \<and> sorted_wrt (<) (map fst m) \<and> set (map fst m) \<subseteq> set rows
         \<and> distinct (map snd m) \<and> set (map snd m) \<subseteq> set cols"
      by (rule "3.IH"(2) [OF skip srt "3.prems"(3)])
    then show ?thesis by auto
  qed
qed

lemma matchings_complete:
  "sorted_wrt (<) rows \<Longrightarrow> distinct cols \<Longrightarrow> sorted_wrt (<) (map fst m)
     \<Longrightarrow> set (map fst m) \<subseteq> set rows \<Longrightarrow> distinct (map snd m)
     \<Longrightarrow> set (map snd m) \<subseteq> set cols \<Longrightarrow> length m = k
     \<Longrightarrow> m \<in> set (matchings rows cols k)"
proof (induction rows cols k arbitrary: m rule: matchings.induct)
  case (1 rows cols)
  then show ?case by simp
next
  case (2 cols k)
  then show ?case by simp
next
  case (3 r rows cols k)
  obtain q t m' where m: "m = (q, t) # m'"
    using "3.prems"(7) by (cases m) auto
  have srt: "sorted_wrt (<) rows" and gt: "\<forall>x \<in> set rows. r < x"
    using "3.prems"(1) by simp_all
  have t: "t \<in> set cols" using "3.prems"(6) m by simp
  have fs: "\<forall>x \<in> set (map fst m'). q < x" "sorted_wrt (<) (map fst m')"
    using "3.prems"(3) m by simp_all
  show ?case
  proof (cases "q = r")
    case True
    have "set (map fst m') \<subseteq> set rows"
      using "3.prems"(4) fs(1) m True by auto
    moreover have "set (map snd m') \<subseteq> set (remove1 t cols)"
      using "3.prems"(2,5,6) m by auto
    moreover have "distinct (map snd m')" using "3.prems"(5) m by simp
    moreover have "length m' = k" using "3.prems"(7) m by simp
    moreover have "distinct (remove1 t cols)" using "3.prems"(2) by simp
    ultimately have "m' \<in> set (matchings rows (remove1 t cols) k)"
      using "3.IH"(1) [OF t srt _ fs(2)] by blast
    then show ?thesis using t m True by auto
  next
    case False
    then have "q \<in> set rows" using "3.prems"(4) m by auto
    then have rq: "r < q" using gt by blast
    have "x \<in> set rows" if "x \<in> set (map fst m)" for x
    proof -
      have "q \<le> x" using that fs(1) m by auto
      moreover have "x \<in> set (r # rows)" using that "3.prems"(4) by blast
      ultimately show ?thesis using rq by auto
    qed
    then have "set (map fst m) \<subseteq> set rows" by blast
    then have "m \<in> set (matchings rows cols (Suc k))"
      using "3.IH"(2) [OF srt "3.prems"(2,3) _ "3.prems"(5,6,7)] by blast
    then show ?thesis by simp
  qed
qed

lemma matchings_nonempty:
  "k \<le> length rows \<Longrightarrow> k \<le> length cols \<Longrightarrow> matchings rows cols k \<noteq> []"
proof (induction rows cols k rule: matchings.induct)
  case (1 rows cols)
  then show ?case by simp
next
  case (2 cols k)
  then show ?case by simp
next
  case (3 r rows cols k)
  obtain c cs where cols: "cols = c # cs"
    using "3.prems"(2) by (cases cols) auto
  have "matchings rows (remove1 c cols) k \<noteq> []"
    by (rule "3.IH"(1)) (use "3.prems" cols in auto)
  then show ?case using cols by simp
qed

lemma best_of_mem: "best_of c b ms \<in> set (b # ms)"
  by (induction ms arbitrary: b) (auto split: if_splits)

lemma best_of_le: "m \<in> set (b # ms) \<Longrightarrow> total_cost c (best_of c b ms) \<le> total_cost c m"
proof (induction ms arbitrary: b m)
  case Nil
  then show ?case by simp
next
  case (Cons a ms)
  have keep: "total_cost c (best_of c x ms) \<le> total_cost c x" for x
    by (rule Cons.IH) simp
  show ?case
  proof (cases "total_cost c a < total_cost c b")
    case True
    then have eq: "best_of c b (a # ms) = best_of c a ms" by simp
    have "total_cost c (best_of c a ms) \<le> total_cost c m"
    proof (cases "m = b")
      case True
      then show ?thesis using keep [of a] \<open>total_cost c a < total_cost c b\<close> by simp
    next
      case False
      then show ?thesis using Cons.prems by (intro Cons.IH) auto
    qed
    then show ?thesis using eq by simp
  next
    case False
    then have eq: "best_of c b (a # ms) = best_of c b ms" by simp
    have "total_cost c (best_of c b ms) \<le> total_cost c m"
    proof (cases "m = a")
      case True
      then show ?thesis using keep [of b] False by simp
    next
      case False
      then show ?thesis using Cons.prems by (intro Cons.IH) auto
    qed
    then show ?thesis using eq by simp
  qed
qed

lemma best_matching_mem: "ms \<noteq> [] \<Longrightarrow> best_matching c ms \<in> set ms"
  unfolding best_matching_def using best_of_mem by (cases ms) auto

lemma best_matching_le:
  "m \<in> set ms \<Longrightarrow> total_cost c (best_matching c ms) \<le> total_cost c m"
  unfolding best_matching_def using best_of_le by (cases ms) auto

lemma sum_list_map_insort_key:
  fixes f :: "'a \<Rightarrow> real"
  shows "sum_list (map f (insort_key g x xs)) = f x + sum_list (map f xs)"
  by (induction xs) simp_all

lemma total_cost_sort_key: "total_cost c (sort_key g m) = total_cost c m"
  unfolding total_cost_def by (induction m) (simp_all add: sum_list_map_insort_key)

lemma distinct_map_insort_key:
  "distinct (map h (insort_key g x xs)) = distinct (map h (x # xs))"
  by (induction xs) (auto simp: set_insort_key)

lemma distinct_map_sort_key: "distinct (map h (sort_key g xs)) = distinct (map h xs)"
  by (induction xs) (simp_all add: distinct_map_insort_key)

lemma linear_sum_assignment_spec:
  assumes len: "length c = Q" and rows: "\<forall>row \<in> set c. length row = T"
  shows "\<exists>is js. linear_sum_assignment (map (map Some) c) = Inr (is, js)
           \<and> length is = min Q T \<and> length js = min Q T
           \<and> sorted_wrt (<) is \<and> distinct js
           \<and> (\<forall>q \<in> set is. q < Q) \<and> (\<forall>t \<in> set js. t < T)
           \<and> (\<forall>m. is_matching Q T m \<and> length m = min Q T
                  \<longrightarrow> total_cost c (zip is js) \<le> total_cost c m)"
proof -
  define nc where "nc = (case c of [] \<Rightarrow> 0 | row # _ \<Rightarrow> length row)"
  define ms where "ms = matchings [0..<Q] [0..<nc] (min Q nc)"
  define best where "best = best_matching c ms"
  have nc: "Q = 0 \<and> nc = 0 \<or> nc = T"
    using len rows unfolding nc_def by (cases c) auto
  then have k: "min Q nc = min Q T" by auto
  have nonone: "\<not> (\<exists>row \<in> set (map (map Some) c). None \<in> set row)" by auto
  have the_some: "map (map the) (map (map Some) c) = c"
    by (simp add: comp_def)
  have lsa: "linear_sum_assignment (map (map Some) c) = Inr (map fst best, map snd best)"
    unfolding linear_sum_assignment_def Let_def the_some best_def ms_def nc_def
    using nonone len by simp
  have ne: "ms \<noteq> []"
    unfolding ms_def by (rule matchings_nonempty) simp_all
  have mem: "best \<in> set ms"
    unfolding best_def by (rule best_matching_mem [OF ne])
  have snd: "length best = min Q nc \<and> sorted_wrt (<) (map fst best)
         \<and> set (map fst best) \<subseteq> set [0..<Q]
         \<and> distinct (map snd best) \<and> set (map snd best) \<subseteq> set [0..<nc]"
    by (rule matchings_sound [OF mem [unfolded ms_def]]) simp_all
  have cols: "\<forall>t \<in> set (map snd best). t < T"
  proof (cases "Q = 0")
    case True
    then have "best = []" using snd by simp
    then show ?thesis by simp
  next
    case False
    then have "nc = T" using nc by simp
    then show ?thesis using snd by auto
  qed
  have opt: "total_cost c (zip (map fst best) (map snd best)) \<le> total_cost c m"
    if m: "is_matching Q T m" "length m = min Q T" for m
  proof -
    let ?m = "sort_key fst m"
    have in_range: "\<forall>(q, t) \<in> set m. q < Q \<and> t < T"
      using m(1) unfolding is_matching_def list_all_iff by simp
    have "sorted (map fst ?m)" by simp
    moreover have "distinct (map fst ?m)"
      using m(1) by (simp add: distinct_map_sort_key is_matching_def)
    ultimately have a: "sorted_wrt (<) (map fst ?m)"
      by (simp add: strict_sorted_iff)
    have b: "set (map fst ?m) \<subseteq> set [0..<Q]"
      using in_range by auto
    have c': "distinct (map snd ?m)"
      using m(1) by (simp add: distinct_map_sort_key is_matching_def)
    have d: "set (map snd ?m) \<subseteq> set [0..<nc]"
    proof (cases "Q = 0")
      case True
      then have "m = []" using in_range by (cases m) auto
      then show ?thesis by simp
    next
      case False
      then have "nc = T" using nc by simp
      then show ?thesis using in_range by auto
    qed
    have e: "length ?m = min Q nc" using m(2) k by simp
    have "?m \<in> set ms"
      unfolding ms_def by (rule matchings_complete [OF _ _ a b c' d e]) simp_all
    then have "total_cost c best \<le> total_cost c ?m"
      unfolding best_def by (rule best_matching_le)
    then show ?thesis
      by (simp add: total_cost_sort_key zip_map_fst_snd)
  qed
  have "length (map fst best) = min Q T" "length (map snd best) = min Q T"
    using snd k by simp_all
  moreover have "\<forall>q \<in> set (map fst best). q < Q" using snd by auto
  ultimately show ?thesis
    using lsa snd cols opt by blast
qed

section \<open>\<open>HungarianMatcher.forward\<close>: facts\<close>

lemma concat_uniform_length:
  "\<forall>xs \<in> set xss. length xs = n \<Longrightarrow> length (concat xss) = length xss * n"
  by (induction xss) simp_all

lemma concat_uniform_nth:
  "\<forall>xs \<in> set xss. length xs = n \<Longrightarrow> b < length xss \<Longrightarrow> q < n
     \<Longrightarrow> concat xss ! (b * n + q) = xss ! b ! q"
proof (induction xss arbitrary: b)
  case Nil
  then show ?case by simp
next
  case (Cons x xss)
  show ?case
  proof (cases b)
    case 0
    then show ?thesis using Cons.prems by (simp add: nth_append)
  next
    case (Suc b')
    have "concat xss ! (b' * n + q) = xss ! b' ! q"
      by (rule Cons.IH) (use Cons.prems Suc in auto)
    moreover have "length x = n" using Cons.prems by simp
    ultimately show ?thesis using Suc by (simp add: nth_append)
  qed
qed

lemma concat_offset_nth:
  "b < length xss \<Longrightarrow> t < length (xss ! b)
     \<Longrightarrow> concat xss ! (sum_list (map length (take b xss)) + t) = xss ! b ! t"
proof (induction xss arbitrary: b)
  case Nil
  then show ?case by simp
next
  case (Cons x xss)
  show ?case
  proof (cases b)
    case 0
    then show ?thesis using Cons.prems by (simp add: nth_append)
  next
    case (Suc b')
    have "concat xss ! (sum_list (map length (take b' xss)) + t) = xss ! b' ! t"
      by (rule Cons.IH) (use Cons.prems Suc in auto)
    then show ?thesis using Suc by (simp add: nth_append add.assoc)
  qed
qed

lemma concat_offset_bound:
  "b < length xss \<Longrightarrow>
     sum_list (map length (take b xss)) + length (xss ! b) \<le> length (concat xss)"
proof (induction xss arbitrary: b)
  case Nil
  then show ?case by simp
next
  case (Cons x xss)
  show ?case
  proof (cases b)
    case 0
    then show ?thesis by simp
  next
    case (Suc b')
    have "sum_list (map length (take b' xss)) + length (xss ! b') \<le> length (concat xss)"
      by (rule Cons.IH) (use Cons.prems Suc in auto)
    then show ?thesis using Suc by simp
  qed
qed

lemma length_split_last: "length (split_last sizes C) = length sizes"
  by (induction sizes arbitrary: C) simp_all

lemma split_last_nth:
  "i < length sizes \<Longrightarrow>
     split_last sizes C ! i
       = map (map (\<lambda>row. take (sizes ! i) (drop (sum_list (take i sizes)) row))) C"
proof (induction sizes arbitrary: C i)
  case Nil
  then show ?case by simp
next
  case (Cons s sizes)
  show ?case
  proof (cases i)
    case 0
    then show ?thesis by simp
  next
    case (Suc i')
    have "split_last sizes (map (map (drop s)) C) ! i'
       = map (map (\<lambda>row. take (sizes ! i') (drop (sum_list (take i' sizes)) row)))
           (map (map (drop s)) C)"
      by (rule Cons.IH) (use Cons.prems Suc in auto)
    then show ?thesis using Suc by (simp add: comp_def add.commute)
  qed
qed

lemma solve_blocks_Inr:
  "solve_blocks i cs = Inr res \<Longrightarrow>
     length res = length cs
     \<and> (\<forall>j<length cs. \<exists>blk. block_at (i + j) (cs ! j) = Inr blk
                            \<and> linear_sum_assignment blk = Inr (res ! j))"
proof (induction cs arbitrary: i res)
  case Nil
  then show ?case by simp
next
  case (Cons c cs)
  obtain blk where blk: "block_at i c = Inr blk"
    using Cons.prems by (cases "block_at i c") (auto simp: bind_err_def)
  obtain r where r: "linear_sum_assignment blk = Inr r"
    using Cons.prems blk by (cases "linear_sum_assignment blk") (auto simp: bind_err_def)
  obtain rs where rs: "solve_blocks (Suc i) cs = Inr rs"
    using Cons.prems blk r by (cases "solve_blocks (Suc i) cs") (auto simp: bind_err_def)
  have res: "res = r # rs"
    using Cons.prems blk r rs by (simp add: bind_err_def)
  have ih: "length rs = length cs
     \<and> (\<forall>j<length cs. \<exists>blk. block_at (Suc i + j) (cs ! j) = Inr blk
                            \<and> linear_sum_assignment blk = Inr (rs ! j))"
    by (rule Cons.IH [OF rs])
  have "\<exists>blk'. block_at (i + j) ((c # cs) ! j) = Inr blk'
                \<and> linear_sum_assignment blk' = Inr (res ! j)"
    if "j < length (c # cs)" for j
  proof (cases j)
    case 0
    then show ?thesis using blk r res by simp
  next
    case (Suc j')
    then show ?thesis using ih that res by simp
  qed
  then show ?case using ih res by simp
qed

lemma solve_blocks_ok:
  "(\<forall>j<length cs. \<exists>blk r. block_at (i + j) (cs ! j) = Inr blk
                            \<and> linear_sum_assignment blk = Inr r)
     \<Longrightarrow> \<exists>res. solve_blocks i cs = Inr res"
proof (induction cs arbitrary: i)
  case Nil
  then show ?case by simp
next
  case (Cons c cs)
  obtain blk r where b: "block_at i c = Inr blk" "linear_sum_assignment blk = Inr r"
    using Cons.prems by force
  have "\<forall>j<length cs. \<exists>blk r. block_at (Suc i + j) (cs ! j) = Inr blk
                            \<and> linear_sum_assignment blk = Inr r"
  proof (intro allI impI)
    fix j assume "j < length cs"
    then have "Suc j < length (c # cs)" by simp
    from Cons.prems [rule_format, OF this] show
      "\<exists>blk r. block_at (Suc i + j) (cs ! j) = Inr blk \<and> linear_sum_assignment blk = Inr r"
      by simp
  qed
  then obtain rs where "solve_blocks (Suc i) cs = Inr rs"
    using Cons.IH by blast
  then show ?case using b by (simp add: bind_err_def)
qed

lemma final_cost_nth:
  assumes "length op = length ob" and "length ti = length tb"
    and "n < length ob" and "j < length tb"
  shows "final_cost self (cdist_l1 ob tb)
           (map (\<lambda>p. map (\<lambda>i. - the (py_index p i)) ti) op)
           (map (map (map_option uminus)) (map (\<lambda>b1. map (giou_pair b1) tb) ob)) ! n ! j
         = flat_entry self (op ! n) (ob ! n) (ti ! j) (tb ! j)"
  using assms
  by (simp add: final_cost_def cdist_l1_def flat_entry_def option.map_comp comp_def)

lemma final_cost_length:
  assumes "length op = length ob" and "length ti = length tb"
  shows "length (final_cost self (cdist_l1 ob tb)
           (map (\<lambda>p. map (\<lambda>i. - the (py_index p i)) ti) op)
           (map (map (map_option uminus)) (map (\<lambda>b1. map (giou_pair b1) tb) ob))) = length ob"
    and "n < length ob \<Longrightarrow> length (final_cost self (cdist_l1 ob tb)
           (map (\<lambda>p. map (\<lambda>i. - the (py_index p i)) ti) op)
           (map (map (map_option uminus)) (map (\<lambda>b1. map (giou_pair b1) tb) ob)) ! n)
           = length tb"
  using assms by (simp_all add: final_cost_def cdist_l1_def)

lemma cost_tensor_Inr:
  assumes "cost_tensor self outputs targets = Inr C"
  defines "op \<equiv> map softmax (concat (pred_logits outputs))"
    and "ob \<equiv> concat (pred_boxes outputs)"
    and "ti \<equiv> concat (map labels targets)"
    and "tb \<equiv> concat (map boxes targets)"
  shows "targets \<noteq> []"
    and "\<forall>p \<in> set op. \<forall>i \<in> set ti. py_index p i \<noteq> None"
    and "list_all valid_box ob" and "list_all valid_box tb"
    and "length op = length ob" and "length ti = length tb"
    and "length (pred_logits outputs) * num_queries_of outputs \<noteq> 0"
    and "C = map (\<lambda>b. take (num_queries_of outputs) (drop (b * num_queries_of outputs)
              (final_cost self (cdist_l1 ob tb)
                 (map (\<lambda>p. map (\<lambda>i. - the (py_index p i)) ti) op)
                 (map (map (map_option uminus)) (map (\<lambda>b1. map (giou_pair b1) tb) ob)))))
            [0..<length (pred_logits outputs)]"
proof -
  let ?F = "final_cost self (cdist_l1 ob tb)
                 (map (\<lambda>p. map (\<lambda>i. - the (py_index p i)) ti) op)
                 (map (map (map_option uminus)) (map (\<lambda>b1. map (giou_pair b1) tb) ob))"
  have ct: "(if targets = [] then Inl RuntimeError
             else bind_err (class_cost op ti) (\<lambda>c_class.
                  bind_err (generalized_box_iou ob tb) (\<lambda>giou.
                    if length op \<noteq> length ob \<or> length ti \<noteq> length tb
                    then Inl RuntimeError
                    else view3 (length (pred_logits outputs)) (num_queries_of outputs)
                           (final_cost self (cdist_l1 ob tb) c_class
                              (map (map (map_option uminus)) giou))))) = Inr C"
    using assms(1) unfolding cost_tensor_def Let_def op_def ob_def ti_def tb_def .
  show t: "targets \<noteq> []"
    using ct by (cases "targets = []") simp_all
  have ct2: "bind_err (class_cost op ti) (\<lambda>c_class.
                  bind_err (generalized_box_iou ob tb) (\<lambda>giou.
                    if length op \<noteq> length ob \<or> length ti \<noteq> length tb
                    then Inl RuntimeError
                    else view3 (length (pred_logits outputs)) (num_queries_of outputs)
                           (final_cost self (cdist_l1 ob tb) c_class
                              (map (map (map_option uminus)) giou)))) = Inr C"
    using ct t by (simp only: if_not_P if_False if_True)
  show idx: "\<forall>p \<in> set op. \<forall>i \<in> set ti. py_index p i \<noteq> None"
  proof (rule ccontr)
    assume "\<not> (\<forall>p \<in> set op. \<forall>i \<in> set ti. py_index p i \<noteq> None)"
    then have "class_cost op ti = Inl IndexError"
      unfolding class_cost_def by (simp only: if_not_P if_False if_True)
    then show False using ct2 by (simp only: bind_err_def sum.case sum.distinct)
  qed
  have cc: "class_cost op ti = Inr (map (\<lambda>p. map (\<lambda>i. - the (py_index p i)) ti) op)"
    unfolding class_cost_def using idx by (simp only: if_P if_False if_True)
  have ct3: "bind_err (generalized_box_iou ob tb) (\<lambda>giou.
                    if length op \<noteq> length ob \<or> length ti \<noteq> length tb
                    then Inl RuntimeError
                    else view3 (length (pred_logits outputs)) (num_queries_of outputs)
                           (final_cost self (cdist_l1 ob tb)
                              (map (\<lambda>p. map (\<lambda>i. - the (py_index p i)) ti) op)
                              (map (map (map_option uminus)) giou))) = Inr C"
    using ct2 unfolding cc by (simp only: bind_err_def sum.case)
  have vb: "list_all valid_box ob \<and> list_all valid_box tb"
  proof (rule ccontr)
    assume "\<not> (list_all valid_box ob \<and> list_all valid_box tb)"
    then have "generalized_box_iou ob tb = Inl GeometryError"
      unfolding generalized_box_iou_def by auto
    then show False using ct3 by (simp only: bind_err_def sum.case sum.distinct)
  qed
  show v1: "list_all valid_box ob" and v2: "list_all valid_box tb"
    using vb by simp_all
  have g: "generalized_box_iou ob tb = Inr (map (\<lambda>b1. map (giou_pair b1) tb) ob)"
    by (rule generalized_box_iou_pairs [OF v1 v2])
  have ct4: "(if length op \<noteq> length ob \<or> length ti \<noteq> length tb
                    then Inl RuntimeError
                    else view3 (length (pred_logits outputs)) (num_queries_of outputs) ?F)
              = Inr C"
    using ct3 unfolding g by (simp only: bind_err_def sum.case)
  have ls: "\<not> (length op \<noteq> length ob \<or> length ti \<noteq> length tb)"
  proof
    assume "length op \<noteq> length ob \<or> length ti \<noteq> length tb"
    then show False using ct4 by (simp only: if_P if_True if_False sum.distinct)
  qed
  show l1: "length op = length ob" and l2: "length ti = length tb"
    using ls by simp_all
  have v: "view3 (length (pred_logits outputs)) (num_queries_of outputs) ?F = Inr C"
    using ct4 ls by (simp only: if_not_P if_False if_True)
  show nz: "length (pred_logits outputs) * num_queries_of outputs \<noteq> 0"
  proof
    assume "length (pred_logits outputs) * num_queries_of outputs = 0"
    then show False using v unfolding view3_def by (simp only: if_P if_True if_False sum.distinct)
  qed
  have "Inr (map (\<lambda>b. take (num_queries_of outputs) (drop (b * num_queries_of outputs) ?F))
            [0..<length (pred_logits outputs)]) = (Inr C :: error + real option list list list)"
    using v nz unfolding view3_def by (simp only: if_not_P if_False if_True)
  then show "C = map (\<lambda>b. take (num_queries_of outputs) (drop (b * num_queries_of outputs) ?F))
            [0..<length (pred_logits outputs)]"
    by (simp only: sum.inject)
qed

lemma flat_entry_softmax:
  "flat_entry self (softmax l) qbox i tbox = cost_entry self l qbox i tbox"
  by (simp add: flat_entry_def cost_entry_def class_prob_def)

lemma handed_block:
  assumes wfo: "wf_outputs outputs" and wft: "wf_targets targets"
    and ct: "cost_tensor self outputs targets = Inr C"
    and b1: "b < length targets" and b2: "b < length (pred_logits outputs)"
  shows "block_at b (split_last (map (\<lambda>v. length (boxes v)) targets) C ! b)
           = Inr (cost_block self outputs targets b)"
proof -
  define Q where "Q = num_queries_of outputs"
  define bs where "bs = length (pred_logits outputs)"
  define op where "op = map softmax (concat (pred_logits outputs))"
  define ob where "ob = concat (pred_boxes outputs)"
  define ti where "ti = concat (map labels targets)"
  define tb where "tb = concat (map boxes targets)"
  define F where "F = final_cost self (cdist_l1 ob tb)
                 (map (\<lambda>p. map (\<lambda>i. - the (py_index p i)) ti) op)
                 (map (map (map_option uminus)) (map (\<lambda>b1. map (giou_pair b1) tb) ob))"
  define sizes where "sizes = map (\<lambda>v. length (boxes v)) targets"
  define off where "off = sum_list (take b sizes)"
  define T where "T = length (boxes (targets ! b))"
  note R = cost_tensor_Inr [OF ct, folded op_def ob_def ti_def tb_def, folded F_def Q_def bs_def]
  have lens: "length op = length ob" "length ti = length tb" by (rule R(5), rule R(6))
  have C: "C = map (\<lambda>b. take Q (drop (b * Q) F)) [0..<bs]" by (rule R(8))
  have rl: "\<forall>r \<in> set (pred_logits outputs). length r = Q"
    and rb: "\<forall>r \<in> set (pred_boxes outputs). length r = Q"
    and lb: "length (pred_boxes outputs) = bs"
    using wfo unfolding wf_outputs_def list_all_iff Q_def bs_def by simp_all
  have lob: "length ob = bs * Q"
    unfolding ob_def using concat_uniform_length [OF rb] lb by simp
  have lF: "length F = bs * Q"
    unfolding F_def using final_cost_length(1) [OF lens] lob by simp
  have b: "b < bs" using b2 bs_def by simp
  have bq: "b * Q + q < bs * Q" if "q < Q" for q
  proof -
    have "b * Q + q < Suc b * Q" using that by simp
    also have "\<dots> \<le> bs * Q" using b by (intro mult_le_mono1) simp
    finally show ?thesis .
  qed
  have offb: "sum_list (map length (take b (map boxes targets))) = off"
    unfolding off_def sizes_def by (simp add: take_map comp_def)
  have meq: "map (\<lambda>v. length (labels v)) targets = map (\<lambda>v. length (boxes v)) targets"
    using wft unfolding wf_targets_def list_all_iff by simp
  have offl: "sum_list (map length (take b (map labels targets))) = off"
    unfolding off_def sizes_def meq [symmetric] by (simp add: take_map comp_def)
  have offT: "off + T \<le> length tb"
    using concat_offset_bound [of b "map boxes targets"] b1
    unfolding offb tb_def T_def by simp
  have Tl: "length (labels (targets ! b)) = T"
    using wft b1 unfolding wf_targets_def list_all_iff T_def by simp
  have split: "split_last sizes C ! b = map (map (\<lambda>row. take T (drop off row))) C"
    using split_last_nth [of b sizes C] b1 unfolding sizes_def off_def T_def by simp
  have lC: "length C = bs" unfolding C by simp
  have Cb: "C ! b = take Q (drop (b * Q) F)" unfolding C using b by simp
  have blk: "block_at b (split_last sizes C ! b)
               = Inr (map (\<lambda>row. take T (drop off row)) (take Q (drop (b * Q) F)))"
    unfolding split block_at_def using b lC Cb by simp
  have eq: "map (\<lambda>row. take T (drop off row)) (take Q (drop (b * Q) F))
              = cost_block self outputs targets b"
  proof (rule nth_equalityI)
    have "Suc b * Q \<le> bs * Q" using b by (intro mult_le_mono1) simp
    then have "Q \<le> length F - b * Q" using lF by simp
    then show "length (map (\<lambda>row. take T (drop off row)) (take Q (drop (b * Q) F)))
              = length (cost_block self outputs targets b)"
      unfolding cost_block_def Q_def by simp
  next
    fix q assume "q < length (map (\<lambda>row. take T (drop off row)) (take Q (drop (b * Q) F)))"
    then have q: "q < Q" by simp
    have n: "b * Q + q < length ob" using bq [OF q] lob by simp
    have nF: "b * Q + q < length F" using bq [OF q] lF by simp
    have row: "map (\<lambda>row. take T (drop off row)) (take Q (drop (b * Q) F)) ! q
                 = take T (drop off (F ! (b * Q + q)))"
    proof -
      have "b * Q \<le> length F" using nF by simp
      then have "take Q (drop (b * Q) F) ! q = F ! (b * Q + q)"
        using q by simp
      moreover have "q < length (take Q (drop (b * Q) F))"
        using q nF by simp
      ultimately show ?thesis by simp
    qed
    have lrow: "length (F ! (b * Q + q)) = length tb"
      unfolding F_def by (rule final_cost_length(2) [OF lens n])
    have opn: "op ! (b * Q + q) = softmax (pred_logits outputs ! b ! q)"
    proof -
      have "b * Q + q < length (concat (pred_logits outputs))"
        using concat_uniform_length [OF rl] bq [OF q] bs_def by simp
      then show ?thesis
        unfolding op_def using concat_uniform_nth [OF rl b2 q] by simp
    qed
    have obn: "ob ! (b * Q + q) = pred_boxes outputs ! b ! q"
      unfolding ob_def using concat_uniform_nth [OF rb _ q, of b] b lb by simp
    show "map (\<lambda>row. take T (drop off row)) (take Q (drop (b * Q) F)) ! q
            = cost_block self outputs targets b ! q"
    proof (rule nth_equalityI)
      show "length (map (\<lambda>row. take T (drop off row)) (take Q (drop (b * Q) F)) ! q)
              = length (cost_block self outputs targets b ! q)"
        unfolding row cost_block_def using q offT lrow Q_def T_def by simp
    next
      fix t assume "t < length (map (\<lambda>row. take T (drop off row)) (take Q (drop (b * Q) F)) ! q)"
      then have t: "t < T" unfolding row by simp
      have j: "off + t < length tb" using t offT by simp
      have tin: "ti ! (off + t) = labels (targets ! b) ! t"
        unfolding ti_def using concat_offset_nth [of b "map labels targets" t] b1 t Tl offl
        by simp
      have tbn: "tb ! (off + t) = boxes (targets ! b) ! t"
        unfolding tb_def using concat_offset_nth [of b "map boxes targets" t] b1 t offb T_def
        by simp
      have "F ! (b * Q + q) ! (off + t)
              = flat_entry self (op ! (b * Q + q)) (ob ! (b * Q + q)) (ti ! (off + t))
                  (tb ! (off + t))"
        unfolding F_def by (rule final_cost_nth [OF lens n j])
      also have "\<dots> = cost_entry self (pred_logits outputs ! b ! q) (pred_boxes outputs ! b ! q)
                          (labels (targets ! b) ! t) (boxes (targets ! b) ! t)"
        unfolding opn obn tin tbn by (rule flat_entry_softmax)
      finally have "F ! (b * Q + q) ! (off + t)
              = cost_entry self (pred_logits outputs ! b ! q) (pred_boxes outputs ! b ! q)
                          (labels (targets ! b) ! t) (boxes (targets ! b) ! t)" .
      then show "map (\<lambda>row. take T (drop off row)) (take Q (drop (b * Q) F)) ! q ! t
            = cost_block self outputs targets b ! q ! t"
        unfolding row cost_block_def using q t j lrow Q_def T_def by simp
    qed
  qed
  show ?thesis
    using blk unfolding eq sizes_def .
qed

lemma forward_Inr:
  assumes "forward self outputs targets = Inr res"
  shows "\<exists>C. cost_tensor self outputs targets = Inr C
           \<and> length res = length targets \<and> targets \<noteq> []
           \<and> length targets \<le> length (pred_logits outputs)
           \<and> (\<forall>b<length targets. \<exists>blk.
                 block_at b (split_last (map (\<lambda>v. length (boxes v)) targets) C ! b) = Inr blk
                 \<and> linear_sum_assignment blk = Inr (res ! b))"
proof -
  let ?sizes = "map (\<lambda>v. length (boxes v)) targets"
  obtain C where C: "cost_tensor self outputs targets = Inr C"
    using assms unfolding forward_def bind_err_def
    by (cases "cost_tensor self outputs targets") auto
  have sb: "solve_blocks 0 (split_last ?sizes C) = Inr res"
    using assms unfolding forward_def C bind_err_def Let_def by simp
  have S: "length res = length (split_last ?sizes C)
     \<and> (\<forall>j<length (split_last ?sizes C). \<exists>blk.
            block_at (0 + j) (split_last ?sizes C ! j) = Inr blk
            \<and> linear_sum_assignment blk = Inr (res ! j))"
    by (rule solve_blocks_Inr [OF sb])
  have len: "length res = length targets"
    using S by (simp add: length_split_last)
  have blocks: "\<forall>b<length targets. \<exists>blk.
                 block_at b (split_last ?sizes C ! b) = Inr blk
                 \<and> linear_sum_assignment blk = Inr (res ! b)"
    using S by (simp add: length_split_last)
  have ne: "targets \<noteq> []" by (rule cost_tensor_Inr(1) [OF C])
  have lC: "length C = length (pred_logits outputs)"
    using cost_tensor_Inr(8) [OF C] by (metis length_map length_upt minus_nat.diff_0)
  have "length targets \<le> length (pred_logits outputs)"
  proof -
    let ?b = "length targets - 1"
    have b: "?b < length targets" using ne by simp
    then obtain blk where "block_at ?b (split_last ?sizes C ! ?b) = Inr blk"
      using blocks by blast
    then have "?b < length (split_last ?sizes C ! ?b)"
      unfolding block_at_def by (auto split: if_splits)
    moreover have "length (split_last ?sizes C ! ?b) = length C"
      using split_last_nth [of ?b ?sizes C] b by simp
    ultimately show ?thesis using lC by simp
  qed
  then show ?thesis using C len ne blocks by blast
qed

lemma cost_block_dims:
  "length (cost_block self outputs targets b) = num_queries_of outputs"
  "q < num_queries_of outputs \<Longrightarrow>
     length (cost_block self outputs targets b ! q) = length (boxes (targets ! b))"
  by (simp_all add: cost_block_def)

lemma all_Some_map:
  assumes "\<not> (\<exists>row \<in> set M. None \<in> set row)"
  shows "M = map (map Some) (map (map the) M)"
proof -
  have r: "map (Some \<circ> the) row = row" if "row \<in> set M" for row
  proof (rule map_idI)
    fix x assume x: "x \<in> set row"
    have "x \<noteq> None"
    proof
      assume "x = None"
      then have "None \<in> set row" using x by simp
      then show False using assms that by blast
    qed
    then show "(Some \<circ> the) x = x" by auto
  qed
  have "map (map (Some \<circ> the)) M = M" by (rule map_idI) (rule r)
  then show ?thesis by (simp add: comp_def)
qed

lemma linear_sum_assignment_Inr:
  assumes "linear_sum_assignment M = Inr r"
  shows "\<not> (\<exists>row \<in> set M. None \<in> set row)"
  using assms unfolding linear_sum_assignment_def by (auto split: if_splits)

lemma solved_block:
  assumes wfo: "wf_outputs outputs" and wft: "wf_targets targets"
    and fw: "forward self outputs targets = Inr res"
    and b: "b < length targets"
  shows "linear_sum_assignment (cost_block self outputs targets b) = Inr (res ! b)"
proof -
  from forward_Inr [OF fw] obtain C where
    C: "cost_tensor self outputs targets = Inr C"
    and le: "length targets \<le> length (pred_logits outputs)"
    and blocks: "\<forall>b<length targets. \<exists>blk.
                 block_at b (split_last (map (\<lambda>v. length (boxes v)) targets) C ! b) = Inr blk
                 \<and> linear_sum_assignment blk = Inr (res ! b)"
    by blast
  have b2: "b < length (pred_logits outputs)" using b le by simp
  show ?thesis
    using blocks b handed_block [OF wfo wft C b b2] by auto
qed

lemma py_index_nonneg:
  assumes "py_index p i \<noteq> None" and "0 \<le> i"
  shows "the (py_index p i) = p ! nat i"
  using assms unfolding py_index_def Let_def by (auto split: if_splits)

lemma py_index_in_range:
  assumes "- int (length p) \<le> i" and "i < int (length p)"
  shows "py_index p i \<noteq> None"
  using assms unfolding py_index_def Let_def by auto

lemma linear_sum_assignment_total:
  assumes "\<not> (\<exists>row \<in> set M. None \<in> set row)"
  shows "\<exists>r. linear_sum_assignment M = Inr r"
  using assms unfolding linear_sum_assignment_def Let_def by simp

lemma cost_tensor_ok:
  assumes wfo: "wf_outputs outputs" and wft: "wf_targets targets"
    and ne: "targets \<noteq> []" and bs: "pred_logits outputs \<noteq> []"
    and Q: "1 \<le> num_queries_of outputs"
    and lr: "labels_in_range outputs targets" and bv: "boxes_valid outputs targets"
  shows "\<exists>C. cost_tensor self outputs targets = Inr C"
proof -
  define op where "op = map softmax (concat (pred_logits outputs))"
  define ob where "ob = concat (pred_boxes outputs)"
  define ti where "ti = concat (map labels targets)"
  define tb where "tb = concat (map boxes targets)"
  have idx: "\<forall>p \<in> set op. \<forall>i \<in> set ti. py_index p i \<noteq> None"
  proof (intro ballI)
    fix p i assume "p \<in> set op" and i: "i \<in> set ti"
    then obtain l where l: "l \<in> set (concat (pred_logits outputs))" "p = softmax l"
      unfolding op_def by auto
    obtain v where v: "v \<in> set targets" "i \<in> set (labels v)"
      using i unfolding ti_def by auto
    have "- int (length l) \<le> i \<and> i < int (length l)"
      using lr l(1) v unfolding labels_in_range_def by blast
    then show "py_index p i \<noteq> None"
      unfolding l(2) by (intro py_index_in_range) simp_all
  qed
  have cc: "class_cost op ti = Inr (map (\<lambda>p. map (\<lambda>i. - the (py_index p i)) ti) op)"
    unfolding class_cost_def using idx by (simp only: if_P if_True)
  have g: "generalized_box_iou ob tb = Inr (map (\<lambda>b1. map (giou_pair b1) tb) ob)"
    using bv unfolding boxes_valid_def ob_def tb_def
    by (intro generalized_box_iou_pairs) simp_all
  have rl: "\<forall>r \<in> set (pred_logits outputs). length r = num_queries_of outputs"
    and rb: "\<forall>r \<in> set (pred_boxes outputs). length r = num_queries_of outputs"
    and lb: "length (pred_boxes outputs) = length (pred_logits outputs)"
    using wfo unfolding wf_outputs_def list_all_iff by simp_all
  have l1: "length op = length ob"
    unfolding op_def ob_def
    using concat_uniform_length [OF rl] concat_uniform_length [OF rb] lb by simp
  have meq: "map (\<lambda>v. length (labels v)) targets = map (\<lambda>v. length (boxes v)) targets"
    using wft unfolding wf_targets_def list_all_iff by simp
  have l2: "length ti = length tb"
    unfolding ti_def tb_def by (simp only: length_concat map_map comp_def meq)
  have nz: "length (pred_logits outputs) * num_queries_of outputs \<noteq> 0"
    using bs Q by simp
  have "cost_tensor self outputs targets
      = (if targets = [] then Inl RuntimeError
             else bind_err (class_cost op ti) (\<lambda>c_class.
                  bind_err (generalized_box_iou ob tb) (\<lambda>giou.
                    if length op \<noteq> length ob \<or> length ti \<noteq> length tb
                    then Inl RuntimeError
                    else view3 (length (pred_logits outputs)) (num_queries_of outputs)
                           (final_cost self (cdist_l1 ob tb) c_class
                              (map (map (map_option uminus)) giou)))))"
    unfolding cost_tensor_def Let_def op_def ob_def ti_def tb_def ..
  then show ?thesis
    unfolding cc g view3_def using ne l1 l2 nz
    by (simp add: bind_err_def)
qed

lemma cost_block_finite:
  assumes "costs_finite outputs targets" and "b < length targets"
  shows "\<not> (\<exists>row \<in> set (cost_block self outputs targets b). None \<in> set row)"
proof
  assume "\<exists>row \<in> set (cost_block self outputs targets b). None \<in> set row"
  then obtain q t where q: "q < num_queries_of outputs" and t: "t < length (boxes (targets ! b))"
    and n: "cost_entry self (pred_logits outputs ! b ! q) (pred_boxes outputs ! b ! q)
              (labels (targets ! b) ! t) (boxes (targets ! b) ! t) = None"
    unfolding cost_block_def by (auto simp: eq_commute [of None])
  have "giou_pair (pred_boxes outputs ! b ! q) (boxes (targets ! b) ! t) \<noteq> None"
    using assms q t unfolding costs_finite_def by (meson nth_mem)
  then show False using n unfolding cost_entry_def by simp
qed

lemma forward_ok:
  assumes wfo: "wf_outputs outputs" and wft: "wf_targets targets"
    and ne: "targets \<noteq> []" and le: "length targets \<le> length (pred_logits outputs)"
    and Q: "1 \<le> num_queries_of outputs"
    and lr: "labels_in_range outputs targets" and bv: "boxes_valid outputs targets"
    and cf: "costs_finite outputs targets"
  shows "\<exists>res. forward self outputs targets = Inr res"
proof -
  let ?sizes = "map (\<lambda>v. length (boxes v)) targets"
  have bs: "pred_logits outputs \<noteq> []" using ne le by auto
  obtain C where C: "cost_tensor self outputs targets = Inr C"
    using cost_tensor_ok [OF wfo wft ne bs Q lr bv] by blast
  have "\<forall>j<length (split_last ?sizes C). \<exists>blk r.
          block_at (0 + j) (split_last ?sizes C ! j) = Inr blk
          \<and> linear_sum_assignment blk = Inr r"
  proof (intro allI impI)
    fix j assume "j < length (split_last ?sizes C)"
    then have j: "j < length targets" by (simp add: length_split_last)
    then have j2: "j < length (pred_logits outputs)" using le by simp
    have "block_at j (split_last ?sizes C ! j) = Inr (cost_block self outputs targets j)"
      by (rule handed_block [OF wfo wft C j j2])
    moreover have "\<exists>r. linear_sum_assignment (cost_block self outputs targets j) = Inr r"
      by (rule linear_sum_assignment_total [OF cost_block_finite [OF cf j]])
    ultimately show "\<exists>blk r. block_at (0 + j) (split_last ?sizes C ! j) = Inr blk
          \<and> linear_sum_assignment blk = Inr r"
      by auto
  qed
  then obtain res where "solve_blocks 0 (split_last ?sizes C) = Inr res"
    using solve_blocks_ok by blast
  then show ?thesis
    unfolding forward_def C bind_err_def Let_def by simp
qed

text \<open>The code computes the cost that the spec words.\<close>

lemma inter_pair_spec: "inter_pair a b = spec_intersection a b"
  by (cases a, cases b)
    (simp add: inter_pair_def spec_intersection_def spec_overlap_def max_def min_def)

lemma union_pair_spec: "union_pair a b = spec_union a b"
  by (simp add: union_pair_def spec_union_def inter_pair_spec)

lemma enclosing_area_spec:
  assumes "valid_box a" and "valid_box b"
  shows "enclosing_area a b = spec_enclosing a b"
proof -
  obtain ax0 ay0 ax1 ay1 where a: "a = (ax0, ay0, ax1, ay1)" by (cases a) auto
  obtain bx0 by0 bx1 by1 where b: "b = (bx0, by0, bx1, by1)" by (cases b) auto
  have "ax0 \<le> ax1" "ay0 \<le> ay1" "bx0 \<le> bx1" "by0 \<le> by1"
    using assms unfolding a b valid_box_def by simp_all
  then have "0 \<le> max ax1 bx1 - min ax0 bx0" "0 \<le> max ay1 by1 - min ay0 by0"
    by (simp_all add: max_def min_def)
  then show ?thesis
    unfolding a b enclosing_area_def spec_enclosing_def by (simp add: max_absorb2)
qed

lemma giou_pair_spec:
  assumes "valid_box a" and "valid_box b"
  shows "giou_pair a b
           = (if spec_union a b = 0 \<or> spec_enclosing a b = 0 then None
              else Some (spec_giou a b))"
  unfolding giou_pair_def giou_entry_def iou_pair_def
    inter_pair_spec union_pair_spec enclosing_area_spec [OF assms]
  by (simp add: fdiv_def fsub_def spec_giou_def)

lemma softmax_nth_spec: "k < length logits \<Longrightarrow> softmax logits ! k = spec_prob logits k"
  by (simp add: softmax_def spec_prob_def)

lemma py_index_nonneg_less:
  assumes "py_index p i \<noteq> None" and "0 \<le> i"
  shows "nat i < length p"
  using assms unfolding py_index_def Let_def by (auto split: if_splits)

lemma cost_entry_spec:
  assumes "valid_box qbox" and "valid_box tbox"
    and "class_prob logits label = softmax logits ! nat label"
    and "nat label < length logits"
  shows "cost_entry self logits qbox label tbox
           = (if spec_union qbox tbox = 0 \<or> spec_enclosing qbox tbox = 0 then None
              else Some (spec_cost self logits qbox (nat label) tbox))"
  unfolding cost_entry_def giou_pair_spec [OF assms(1,2)] assms(3)
    softmax_nth_spec [OF assms(4)]
  by (simp add: spec_cost_def)

text \<open>
  Claim C2. For predictions and targets of the shapes of the docstring, with as many target
  elements as batch elements, the block that lines 127-131 take for batch element \<open>b\<close> is
  the \<open>Q \<times> T_b\<close> block whose entry \<open>(q, t)\<close> is
  \<open>wBox * L1(box_q, box_t) + wClass * (- P(label_t | query_q)) + wGiou * (- GIoU(box_q, box_t))\<close>
  with query \<open>q\<close> and target \<open>t\<close> of batch element \<open>b\<close> itself, where \<open>P\<close> is the
  softmax of the logits of the query read at the label and GIoU is the generalized IoU as the
  spec words it; the entry is not a number exactly when the union or the enclosing area of
  the pair is zero. This block is what the solver is called on, so flattening and
  partitioning keep the order of the queries and of the targets within each batch element.
\<close>

theorem forward_cost_block_entries:
  assumes wfo: "wf_outputs outputs" and wft: "wf_targets targets"
    and same: "length targets = length (pred_logits outputs)"
    and ct: "cost_tensor self outputs targets = Inr C"
    and b: "b < length targets"
  shows "block_at b (split_last (map (\<lambda>v. length (boxes v)) targets) C ! b)
           = Inr (cost_block self outputs targets b)
         \<and> length (cost_block self outputs targets b) = num_queries_of outputs
         \<and> (\<forall>q<num_queries_of outputs.
               length (cost_block self outputs targets b ! q) = length (boxes (targets ! b))
               \<and> (\<forall>t<length (boxes (targets ! b)).
                     cost_block self outputs targets b ! q ! t
                       = map_option
                           (\<lambda>g. cost_bbox self
                                   * l1_dist (pred_boxes outputs ! b ! q) (boxes (targets ! b) ! t)
                                 + cost_class self
                                   * (- class_prob (pred_logits outputs ! b ! q)
                                          (labels (targets ! b) ! t))
                                 + cost_giou self * (- g))
                           (giou_pair (pred_boxes outputs ! b ! q) (boxes (targets ! b) ! t))
                     \<and> (0 \<le> labels (targets ! b) ! t \<longrightarrow>
                          class_prob (pred_logits outputs ! b ! q) (labels (targets ! b) ! t)
                            = softmax (pred_logits outputs ! b ! q)
                                ! nat (labels (targets ! b) ! t)
                          \<and> cost_block self outputs targets b ! q ! t
                              = (if spec_union (pred_boxes outputs ! b ! q)
                                      (boxes (targets ! b) ! t) = 0
                                    \<or> spec_enclosing (pred_boxes outputs ! b ! q)
                                         (boxes (targets ! b) ! t) = 0
                                 then None
                                 else Some (spec_cost self (pred_logits outputs ! b ! q)
                                              (pred_boxes outputs ! b ! q)
                                              (nat (labels (targets ! b) ! t))
                                              (boxes (targets ! b) ! t))))))
         \<and> (\<forall>res. forward self outputs targets = Inr res \<longrightarrow>
               linear_sum_assignment (cost_block self outputs targets b) = Inr (res ! b))"
proof (intro conjI allI impI)
  have b2: "b < length (pred_logits outputs)" using b same by simp
  show "block_at b (split_last (map (\<lambda>v. length (boxes v)) targets) C ! b)
           = Inr (cost_block self outputs targets b)"
    by (rule handed_block [OF wfo wft ct b b2])
  show "length (cost_block self outputs targets b) = num_queries_of outputs"
    by (rule cost_block_dims(1))
  fix q assume q: "q < num_queries_of outputs"
  show "length (cost_block self outputs targets b ! q) = length (boxes (targets ! b))"
    by (rule cost_block_dims(2) [OF q])
  fix t assume t: "t < length (boxes (targets ! b))"
  show "cost_block self outputs targets b ! q ! t
          = map_option
              (\<lambda>g. cost_bbox self
                      * l1_dist (pred_boxes outputs ! b ! q) (boxes (targets ! b) ! t)
                    + cost_class self
                      * (- class_prob (pred_logits outputs ! b ! q) (labels (targets ! b) ! t))
                    + cost_giou self * (- g))
              (giou_pair (pred_boxes outputs ! b ! q) (boxes (targets ! b) ! t))"
    using q t by (simp add: cost_block_def cost_entry_def)
  assume nn: "0 \<le> labels (targets ! b) ! t"
  have rl: "\<forall>r \<in> set (pred_logits outputs). length r = num_queries_of outputs"
    using wfo unfolding wf_outputs_def list_all_iff by simp
  have "pred_logits outputs ! b \<in> set (pred_logits outputs)"
    using b2 by simp
  moreover from this have "pred_logits outputs ! b ! q \<in> set (pred_logits outputs ! b)"
    using rl q by simp
  ultimately have p: "softmax (pred_logits outputs ! b ! q)
                       \<in> set (map softmax (concat (pred_logits outputs)))"
    by auto
  have "length (labels (targets ! b)) = length (boxes (targets ! b))"
    using wft b unfolding wf_targets_def list_all_iff by simp
  then have "labels (targets ! b) ! t \<in> set (labels (targets ! b))"
    using t by simp
  moreover have "targets ! b \<in> set targets" using b by simp
  ultimately have i: "labels (targets ! b) ! t \<in> set (concat (map labels targets))"
    by auto
  have "py_index (softmax (pred_logits outputs ! b ! q)) (labels (targets ! b) ! t) \<noteq> None"
    using cost_tensor_Inr(2) [OF ct] p i by blast
  then have pn: "py_index (softmax (pred_logits outputs ! b ! q)) (labels (targets ! b) ! t)
                   \<noteq> None" .
  have cp: "class_prob (pred_logits outputs ! b ! q) (labels (targets ! b) ! t)
               = softmax (pred_logits outputs ! b ! q) ! nat (labels (targets ! b) ! t)"
    unfolding class_prob_def by (rule py_index_nonneg [OF pn nn])
  have lt: "nat (labels (targets ! b) ! t) < length (pred_logits outputs ! b ! q)"
    using py_index_nonneg_less [OF pn nn] by simp
  show "class_prob (pred_logits outputs ! b ! q) (labels (targets ! b) ! t)
               = softmax (pred_logits outputs ! b ! q) ! nat (labels (targets ! b) ! t)"
    by (rule cp)
  have rb: "\<forall>r \<in> set (pred_boxes outputs). length r = num_queries_of outputs"
    and lb: "length (pred_boxes outputs) = length (pred_logits outputs)"
    using wfo unfolding wf_outputs_def list_all_iff by simp_all
  have "pred_boxes outputs ! b \<in> set (pred_boxes outputs)"
    using b2 lb by simp
  moreover from this have "pred_boxes outputs ! b ! q \<in> set (pred_boxes outputs ! b)"
    using rb q by simp
  ultimately have "pred_boxes outputs ! b ! q \<in> set (concat (pred_boxes outputs))"
    by auto
  then have v1: "valid_box (pred_boxes outputs ! b ! q)"
    using cost_tensor_Inr(3) [OF ct] unfolding list_all_iff by blast
  have "boxes (targets ! b) ! t \<in> set (boxes (targets ! b))" using t by simp
  then have "boxes (targets ! b) ! t \<in> set (concat (map boxes targets))"
    using \<open>targets ! b \<in> set targets\<close> by auto
  then have v2: "valid_box (boxes (targets ! b) ! t)"
    using cost_tensor_Inr(4) [OF ct] unfolding list_all_iff by blast
  show "cost_block self outputs targets b ! q ! t
          = (if spec_union (pred_boxes outputs ! b ! q) (boxes (targets ! b) ! t) = 0
                \<or> spec_enclosing (pred_boxes outputs ! b ! q) (boxes (targets ! b) ! t) = 0
             then None
             else Some (spec_cost self (pred_logits outputs ! b ! q)
                          (pred_boxes outputs ! b ! q)
                          (nat (labels (targets ! b) ! t))
                          (boxes (targets ! b) ! t)))"
  proof -
    have "cost_block self outputs targets b ! q ! t
            = cost_entry self (pred_logits outputs ! b ! q) (pred_boxes outputs ! b ! q)
                (labels (targets ! b) ! t) (boxes (targets ! b) ! t)"
      using q t by (simp add: cost_block_def)
    then show ?thesis by (simp only: cost_entry_spec [OF v1 v2 cp lt])
  qed
next
  fix res assume "forward self outputs targets = Inr res"
  then show "linear_sum_assignment (cost_block self outputs targets b) = Inr (res ! b)"
    by (rule solved_block [OF wfo wft _ b])
qed

theorem forward_cost_block_entries_witness:
  "cost_tensor \<lparr>cost_class = 2, cost_bbox = 5, cost_giou = 1\<rparr>
      \<lparr>pred_logits = [[[0, 0], [ln 3, 0]], [[ln 3, 0], [0, 0]]],
        pred_boxes = [[(0, 0, 1, 1), (0, 0, 4, 4)], [(0, 0, 2, 2), (1, 1, 3, 3)]]\<rparr>
      [\<lparr>labels = [1], boxes = [(0, 0, 1, 1)]\<rparr>,
       \<lparr>labels = [0, 1], boxes = [(1, 1, 3, 3), (0, 0, 2, 2)]\<rparr>]
     = Inr [[[Some (- 2), Some (265 / 9), Some (35 / 4)],
         [Some (471 / 16), Some (73 / 4), Some (77 / 4)]],
        [[Some (37 / 4), Some (2341 / 126), Some (- 3 / 2)],
         [Some (265 / 9), Some (- 2), Some (1202 / 63)]]]
   \<and> block_at 1
         (split_last
            (map (\<lambda>v. length (boxes v))
               [\<lparr>labels = [1], boxes = [(0, 0, 1, 1)]\<rparr>,
       \<lparr>labels = [0, 1], boxes = [(1, 1, 3, 3), (0, 0, 2, 2)]\<rparr>])
            [[[Some (- 2), Some (265 / 9), Some (35 / 4)],
         [Some (471 / 16), Some (73 / 4), Some (77 / 4)]],
        [[Some (37 / 4), Some (2341 / 126), Some (- 3 / 2)],
         [Some (265 / 9), Some (- 2), Some (1202 / 63)]]] ! 1)
     = Inr (cost_block \<lparr>cost_class = 2, cost_bbox = 5, cost_giou = 1\<rparr>
              \<lparr>pred_logits = [[[0, 0], [ln 3, 0]], [[ln 3, 0], [0, 0]]],
        pred_boxes = [[(0, 0, 1, 1), (0, 0, 4, 4)], [(0, 0, 2, 2), (1, 1, 3, 3)]]\<rparr>
              [\<lparr>labels = [1], boxes = [(0, 0, 1, 1)]\<rparr>,
       \<lparr>labels = [0, 1], boxes = [(1, 1, 3, 3), (0, 0, 2, 2)]\<rparr>] 1)
   \<and> cost_block \<lparr>cost_class = 2, cost_bbox = 5, cost_giou = 1\<rparr>
         \<lparr>pred_logits = [[[0, 0], [ln 3, 0]], [[ln 3, 0], [0, 0]]],
        pred_boxes = [[(0, 0, 1, 1), (0, 0, 4, 4)], [(0, 0, 2, 2), (1, 1, 3, 3)]]\<rparr>
         [\<lparr>labels = [1], boxes = [(0, 0, 1, 1)]\<rparr>,
       \<lparr>labels = [0, 1], boxes = [(1, 1, 3, 3), (0, 0, 2, 2)]\<rparr>] 1
     = [[Some (2341 / 126), Some (- 3 / 2)], [Some (- 2), Some (1202 / 63)]]
   \<and> cost_block \<lparr>cost_class = 2, cost_bbox = 5, cost_giou = 1\<rparr>
         \<lparr>pred_logits = [[[0, 0], [ln 3, 0]], [[ln 3, 0], [0, 0]]],
        pred_boxes = [[(0, 0, 1, 1), (0, 0, 4, 4)], [(0, 0, 2, 2), (1, 1, 3, 3)]]\<rparr>
         [\<lparr>labels = [1], boxes = [(0, 0, 1, 1)]\<rparr>,
       \<lparr>labels = [0, 1], boxes = [(1, 1, 3, 3), (0, 0, 2, 2)]\<rparr>] 1 ! 0 ! 0
     = Some (spec_cost \<lparr>cost_class = 2, cost_bbox = 5, cost_giou = 1\<rparr> [ln 3, 0] (0, 0, 2, 2) 0 (1, 1, 3, 3))
   \<and> spec_cost \<lparr>cost_class = 2, cost_bbox = 5, cost_giou = 1\<rparr> [ln 3, 0] (0, 0, 2, 2) 0 (1, 1, 3, 3)
     = 5 * 4 + 2 * (- (3 / 4)) + 1 * (- (- 5 / 63))
   \<and> spec_giou (0, 0, 2, 2) (1, 1, 3, 3) = - 5 / 63
   \<and> linear_sum_assignment
         (cost_block \<lparr>cost_class = 2, cost_bbox = 5, cost_giou = 1\<rparr>
            \<lparr>pred_logits = [[[0, 0], [ln 3, 0]], [[ln 3, 0], [0, 0]]],
        pred_boxes = [[(0, 0, 1, 1), (0, 0, 4, 4)], [(0, 0, 2, 2), (1, 1, 3, 3)]]\<rparr>
            [\<lparr>labels = [1], boxes = [(0, 0, 1, 1)]\<rparr>,
       \<lparr>labels = [0, 1], boxes = [(1, 1, 3, 3), (0, 0, 2, 2)]\<rparr>] 1)
     = Inr ([0, 1], [1, 0])"
proof -
  let ?M = "\<lparr>cost_class = 2, cost_bbox = 5, cost_giou = 1\<rparr>"
  let ?O = "\<lparr>pred_logits = [[[0, 0], [ln 3, 0]], [[ln 3, 0], [0, 0]]],
        pred_boxes = [[(0, 0, 1, 1), (0, 0, 4, 4)], [(0, 0, 2, 2), (1, 1, 3, 3)]]\<rparr>"
  let ?T = "[\<lparr>labels = [1], boxes = [(0, 0, 1, 1)]\<rparr>,
       \<lparr>labels = [0, 1], boxes = [(1, 1, 3, 3), (0, 0, 2, 2)]\<rparr>]"
  have wfo: "wf_outputs ?O" and wft: "wf_targets ?T"
    by (simp_all add: wf_outputs_def wf_targets_def num_queries_of_def)
  have same: "length ?T = length (pred_logits ?O)" by simp
  have b: "1 < length ?T" by simp
  have q: "0 < num_queries_of ?O" by (simp add: num_queries_of_def)
  have t: "0 < length (boxes (?T ! 1))" by simp
  have nn: "0 \<le> labels (?T ! 1) ! 0" by simp
  have h: "cost_tensor ?M ?O ?T
     = Inr [[[Some (- 2), Some (265 / 9), Some (35 / 4)],
         [Some (471 / 16), Some (73 / 4), Some (77 / 4)]],
        [[Some (37 / 4), Some (2341 / 126), Some (- 3 / 2)],
         [Some (265 / 9), Some (- 2), Some (1202 / 63)]]]"
    by (simp add: forward_def cost_tensor_def num_queries_of_def class_cost_def py_index_def
        cdist_l1_def l1_dist_def generalized_box_iou_def box_iou_def valid_box_def
        giou_entry_def enclosing_area_def iou_pair_def union_pair_def inter_pair_def
        box_area_def fdiv_def fsub_def final_cost_def view3_def block_at_def
        linear_sum_assignment_def best_matching_def total_cost_def bind_err_def softmax_def
        Let_def upt_rec del: not_None_eq)
  have fw: "forward ?M ?O ?T = Inr [([0], [0]), ([0, 1], [1, 0])]"
    by (simp add: forward_def cost_tensor_def num_queries_of_def class_cost_def py_index_def
        cdist_l1_def l1_dist_def generalized_box_iou_def box_iou_def valid_box_def
        giou_entry_def enclosing_area_def iou_pair_def union_pair_def inter_pair_def
        box_area_def fdiv_def fsub_def final_cost_def view3_def block_at_def
        linear_sum_assignment_def best_matching_def total_cost_def bind_err_def softmax_def
        Let_def upt_rec del: not_None_eq)
  note inst = forward_cost_block_entries [OF wfo wft same h b]
  have blk: "block_at 1
         (split_last (map (\<lambda>v. length (boxes v)) ?T)
            [[[Some (- 2), Some (265 / 9), Some (35 / 4)],
         [Some (471 / 16), Some (73 / 4), Some (77 / 4)]],
        [[Some (37 / 4), Some (2341 / 126), Some (- 3 / 2)],
         [Some (265 / 9), Some (- 2), Some (1202 / 63)]]] ! 1)
     = Inr (cost_block ?M ?O ?T 1)"
    using inst by blast
  have cb: "cost_block ?M ?O ?T 1
     = [[Some (2341 / 126), Some (- 3 / 2)], [Some (- 2), Some (1202 / 63)]]"
    by (simp add: cost_block_def cost_entry_def class_prob_def py_index_def softmax_def
        num_queries_of_def l1_dist_def giou_pair_def giou_entry_def iou_pair_def
        union_pair_def inter_pair_def box_area_def enclosing_area_def fdiv_def fsub_def
        upt_rec)
  have g: "spec_giou (0, 0, 2, 2) (1, 1, 3, 3) = - 5 / 63"
    by (simp add: spec_giou_def spec_union_def spec_intersection_def spec_overlap_def
        spec_enclosing_def box_area_def)
  have sc: "spec_cost ?M [ln 3, 0] (0, 0, 2, 2) 0 (1, 1, 3, 3)
     = 5 * 4 + 2 * (- (3 / 4)) + 1 * (- (- 5 / 63))"
    by (simp add: spec_cost_def g spec_prob_def l1_dist_def)
  have u: "spec_union (0, 0, 2, 2) (1, 1, 3, 3) \<noteq> 0"
    "spec_enclosing (0, 0, 2, 2) (1, 1, 3, 3) \<noteq> 0"
    by (simp_all add: spec_union_def spec_intersection_def spec_overlap_def
        spec_enclosing_def box_area_def)
  have "cost_block ?M ?O ?T 1 ! 0 ! 0
     = (if spec_union (pred_boxes ?O ! 1 ! 0) (boxes (?T ! 1) ! 0) = 0
           \<or> spec_enclosing (pred_boxes ?O ! 1 ! 0) (boxes (?T ! 1) ! 0) = 0
        then None
        else Some (spec_cost ?M (pred_logits ?O ! 1 ! 0) (pred_boxes ?O ! 1 ! 0)
                     (nat (labels (?T ! 1) ! 0)) (boxes (?T ! 1) ! 0)))"
    using inst q t nn by blast
  then have e: "cost_block ?M ?O ?T 1 ! 0 ! 0
     = Some (spec_cost ?M [ln 3, 0] (0, 0, 2, 2) 0 (1, 1, 3, 3))"
    using u by simp
  have "linear_sum_assignment (cost_block ?M ?O ?T 1)
     = Inr ([([0], [0]), ([0, 1], [1, 0])] ! 1)"
    using inst fw by blast
  then have s: "linear_sum_assignment (cost_block ?M ?O ?T 1) = Inr ([0, 1], [1, 0])"
    by simp
  show ?thesis
    by (rule conjI [OF h conjI [OF blk conjI [OF cb conjI [OF e conjI [OF sc conjI [OF g s]]]]]])
qed

text \<open>
  Claim C1. Whenever \<open>forward\<close> returns, on predictions and targets of the shapes of the
  docstring, the assignment of batch element \<open>b\<close> is a one-to-one matching of
  \<open>min(Q, T_b)\<close> pairs of a query below \<open>Q\<close> with a target below \<open>T_b\<close>, and no
  one-to-one matching of that size has a smaller total cost in the cost block of the
  element. On the cost matrix \<open>[[1, 5], [5, 1]]\<close> the solver returns \<open>{(0, 0), (1, 1)}\<close>,
  of total cost 2.
\<close>

theorem forward_assignment_optimal:
  assumes wfo: "wf_outputs outputs" and wft: "wf_targets targets"
    and fw: "forward self outputs targets = Inr res"
    and b: "b < length targets"
  shows "(\<exists>c is js.
            cost_block self outputs targets b = map (map Some) c
            \<and> res ! b = (is, js)
            \<and> length is = min (num_queries_of outputs) (length (boxes (targets ! b)))
            \<and> length js = min (num_queries_of outputs) (length (boxes (targets ! b)))
            \<and> is_matching (num_queries_of outputs) (length (boxes (targets ! b))) (zip is js)
            \<and> (\<forall>m. is_matching (num_queries_of outputs) (length (boxes (targets ! b))) m
                     \<and> length m = min (num_queries_of outputs) (length (boxes (targets ! b)))
                   \<longrightarrow> total_cost c (zip is js) \<le> total_cost c m))
         \<and> linear_sum_assignment [[Some 1, Some 5], [Some 5, Some 1]] = Inr ([0, 1], [0, 1])
         \<and> total_cost [[1, 5], [5, 1]] (zip [0, 1] [0, 1]) = 2"
proof (intro conjI)
  let ?Q = "num_queries_of outputs" and ?T = "length (boxes (targets ! b))"
  let ?M = "cost_block self outputs targets b"
  define c where "c = map (map the) ?M"
  have lsa: "linear_sum_assignment ?M = Inr (res ! b)"
    by (rule solved_block [OF wfo wft fw b])
  have M: "?M = map (map Some) c"
    unfolding c_def by (rule all_Some_map [OF linear_sum_assignment_Inr [OF lsa]])
  have lc: "length c = ?Q" unfolding c_def by (simp add: cost_block_dims(1))
  have rows: "\<forall>row \<in> set c. length row = ?T"
    unfolding c_def cost_block_def by auto
  from linear_sum_assignment_spec [OF lc rows] obtain "is" js where
    r: "linear_sum_assignment (map (map Some) c) = Inr (is, js)"
    and len: "length is = min ?Q ?T" "length js = min ?Q ?T"
    and srt: "sorted_wrt (<) is" and dj: "distinct js"
    and ri: "\<forall>q \<in> set is. q < ?Q" and rj: "\<forall>t \<in> set js. t < ?T"
    and opt: "\<forall>m. is_matching ?Q ?T m \<and> length m = min ?Q ?T
                \<longrightarrow> total_cost c (zip is js) \<le> total_cost c m"
    by blast
  have res: "res ! b = (is, js)" using lsa r unfolding M by simp
  have "distinct is" using srt by (simp add: strict_sorted_iff)
  moreover have "\<forall>(q, t) \<in> set (zip is js). q < ?Q \<and> t < ?T"
    using ri rj by (auto dest: set_zip_leftD set_zip_rightD)
  ultimately have mt: "is_matching ?Q ?T (zip is js)"
    unfolding is_matching_def list_all_iff using dj len by simp
  show "\<exists>c is js.
            ?M = map (map Some) c \<and> res ! b = (is, js)
            \<and> length is = min ?Q ?T \<and> length js = min ?Q ?T
            \<and> is_matching ?Q ?T (zip is js)
            \<and> (\<forall>m. is_matching ?Q ?T m \<and> length m = min ?Q ?T
                   \<longrightarrow> total_cost c (zip is js) \<le> total_cost c m)"
    using M res len mt opt by blast
  show "linear_sum_assignment [[Some 1, Some 5], [Some 5, Some 1]] = Inr ([0, 1], [0, 1])"
    by (simp add: linear_sum_assignment_def best_matching_def total_cost_def upt_rec)
  show "total_cost [[1, 5], [5, 1]] (zip [0, 1] [0, 1]) = 2"
    by (simp add: total_cost_def)
qed

theorem forward_assignment_optimal_witness:
  "forward \<lparr>cost_class = 1, cost_bbox = 1, cost_giou = 1\<rparr>
     \<lparr>pred_logits = [[[0, 0], [0, 0]]], pred_boxes = [[(0, 0, 1, 1), (2, 2, 3, 3)]]\<rparr>
     [\<lparr>labels = [0, 0], boxes = [(2, 2, 3, 3), (0, 0, 1, 1)]\<rparr>]
     = Inr [([0, 1], [1, 0])]
   \<and> ((\<exists>c is js.
            cost_block \<lparr>cost_class = 1, cost_bbox = 1, cost_giou = 1\<rparr> \<lparr>pred_logits = [[[0, 0], [0, 0]]], pred_boxes = [[(0, 0, 1, 1), (2, 2, 3, 3)]]\<rparr> [\<lparr>labels = [0, 0], boxes = [(2, 2, 3, 3), (0, 0, 1, 1)]\<rparr>] 0 = map (map Some) c
            \<and> [([0, 1], [1, 0])] ! 0 = (is, js)
            \<and> length is = min (num_queries_of \<lparr>pred_logits = [[[0, 0], [0, 0]]], pred_boxes = [[(0, 0, 1, 1), (2, 2, 3, 3)]]\<rparr>) (length (boxes ([\<lparr>labels = [0, 0], boxes = [(2, 2, 3, 3), (0, 0, 1, 1)]\<rparr>] ! 0)))
            \<and> length js = min (num_queries_of \<lparr>pred_logits = [[[0, 0], [0, 0]]], pred_boxes = [[(0, 0, 1, 1), (2, 2, 3, 3)]]\<rparr>) (length (boxes ([\<lparr>labels = [0, 0], boxes = [(2, 2, 3, 3), (0, 0, 1, 1)]\<rparr>] ! 0)))
            \<and> is_matching (num_queries_of \<lparr>pred_logits = [[[0, 0], [0, 0]]], pred_boxes = [[(0, 0, 1, 1), (2, 2, 3, 3)]]\<rparr>) (length (boxes ([\<lparr>labels = [0, 0], boxes = [(2, 2, 3, 3), (0, 0, 1, 1)]\<rparr>] ! 0))) (zip is js)
            \<and> (\<forall>m. is_matching (num_queries_of \<lparr>pred_logits = [[[0, 0], [0, 0]]], pred_boxes = [[(0, 0, 1, 1), (2, 2, 3, 3)]]\<rparr>) (length (boxes ([\<lparr>labels = [0, 0], boxes = [(2, 2, 3, 3), (0, 0, 1, 1)]\<rparr>] ! 0))) m
                     \<and> length m = min (num_queries_of \<lparr>pred_logits = [[[0, 0], [0, 0]]], pred_boxes = [[(0, 0, 1, 1), (2, 2, 3, 3)]]\<rparr>) (length (boxes ([\<lparr>labels = [0, 0], boxes = [(2, 2, 3, 3), (0, 0, 1, 1)]\<rparr>] ! 0)))
                   \<longrightarrow> total_cost c (zip is js) \<le> total_cost c m))
         \<and> linear_sum_assignment [[Some 1, Some 5], [Some 5, Some 1]] = Inr ([0, 1], [0, 1])
         \<and> total_cost [[1, 5], [5, 1]] (zip [0, 1] [0, 1]) = 2)"
proof -
  have wfo: "wf_outputs \<lparr>pred_logits = [[[0, 0], [0, 0]]], pred_boxes = [[(0, 0, 1, 1), (2, 2, 3, 3)]]\<rparr>"
    and wft: "wf_targets [\<lparr>labels = [0, 0], boxes = [(2, 2, 3, 3), (0, 0, 1, 1)]\<rparr>]"
    by (simp_all add: wf_outputs_def wf_targets_def labels_in_range_def boxes_valid_def
        costs_finite_def num_queries_of_def valid_box_def giou_pair_def giou_entry_def
        iou_pair_def union_pair_def inter_pair_def box_area_def enclosing_area_def fdiv_def
        fsub_def less_Suc_eq numeral_2_eq_2)
  have b: "0 < length [\<lparr>labels = [0, 0], boxes = [(2, 2, 3, 3), (0, 0, 1, 1)]\<rparr>]" by simp
  have h: "forward \<lparr>cost_class = 1, cost_bbox = 1, cost_giou = 1\<rparr>
     \<lparr>pred_logits = [[[0, 0], [0, 0]]], pred_boxes = [[(0, 0, 1, 1), (2, 2, 3, 3)]]\<rparr>
     [\<lparr>labels = [0, 0], boxes = [(2, 2, 3, 3), (0, 0, 1, 1)]\<rparr>]
     = Inr [([0, 1], [1, 0])]"
    by (simp add: forward_def cost_tensor_def num_queries_of_def class_cost_def py_index_def
        cdist_l1_def l1_dist_def generalized_box_iou_def box_iou_def valid_box_def
        giou_entry_def enclosing_area_def iou_pair_def union_pair_def inter_pair_def
        box_area_def fdiv_def fsub_def final_cost_def view3_def block_at_def
        linear_sum_assignment_def best_matching_def total_cost_def bind_err_def softmax_def
        Let_def upt_rec del: not_None_eq)
  show ?thesis
    by (rule conjI [OF h forward_assignment_optimal [OF wfo wft h b]])
qed

text \<open>
  Claim C4. When the predictions and targets have the shapes of the docstring, with as many
  target elements as batch elements and at least one query, and nothing else makes the call
  fail (labels within the class dimension, boxes that pass the geometry check, costs that
  are numbers), \<open>forward\<close> returns, and the assignment of every batch element without
  targets is empty.
\<close>

theorem forward_empty_targets:
  assumes wfo: "wf_outputs outputs" and wft: "wf_targets targets"
    and same: "length targets = length (pred_logits outputs)"
    and Q: "1 \<le> num_queries_of outputs"
    and lr: "labels_in_range outputs targets" and bv: "boxes_valid outputs targets"
    and cf: "costs_finite outputs targets"
    and b: "b < length targets" and empty: "boxes (targets ! b) = []"
  shows "\<exists>res. forward self outputs targets = Inr res \<and> length res = length targets
           \<and> res ! b = ([], [])"
proof -
  have ne: "targets \<noteq> []" using b by auto
  have le: "length targets \<le> length (pred_logits outputs)" using same by simp
  obtain res where fw: "forward self outputs targets = Inr res"
    using forward_ok [OF wfo wft ne le Q lr bv cf] by blast
  have len: "length res = length targets"
    using forward_Inr [OF fw] by blast
  let ?c = "map (\<lambda>q. []) [0..<num_queries_of outputs] :: real list list"
  have M: "cost_block self outputs targets b = map (map Some) ?c"
    unfolding cost_block_def empty by simp
  have "length ?c = num_queries_of outputs" "\<forall>row \<in> set ?c. length row = 0"
    by simp_all
  from linear_sum_assignment_spec [OF this] obtain "is" js where
    "linear_sum_assignment (map (map Some) ?c) = Inr (is, js)"
    "length is = min (num_queries_of outputs) 0" "length js = min (num_queries_of outputs) 0"
    by blast
  then have "linear_sum_assignment (cost_block self outputs targets b) = Inr ([], [])"
    unfolding M by simp
  then have "res ! b = ([], [])"
    using solved_block [OF wfo wft fw b] by simp
  then show ?thesis using fw len by blast
qed

theorem forward_empty_targets_witness:
  "forward \<lparr>cost_class = 1, cost_bbox = 1, cost_giou = 1\<rparr>
     \<lparr>pred_logits = [[[0, 0]], [[0, 0]]], pred_boxes = [[(0, 0, 1, 1)], [(2, 2, 3, 3)]]\<rparr>
     [\<lparr>labels = [0], boxes = [(0, 0, 1, 1)]\<rparr>, \<lparr>labels = [], boxes = []\<rparr>]
     = Inr [([0], [0]), ([], [])]
   \<and> (\<exists>res. forward \<lparr>cost_class = 1, cost_bbox = 1, cost_giou = 1\<rparr> \<lparr>pred_logits = [[[0, 0]], [[0, 0]]], pred_boxes = [[(0, 0, 1, 1)], [(2, 2, 3, 3)]]\<rparr> [\<lparr>labels = [0], boxes = [(0, 0, 1, 1)]\<rparr>, \<lparr>labels = [], boxes = []\<rparr>] = Inr res \<and> length res = length [\<lparr>labels = [0], boxes = [(0, 0, 1, 1)]\<rparr>, \<lparr>labels = [], boxes = []\<rparr>]
           \<and> res ! 1 = ([], []))"
proof -
  have wfo: "wf_outputs \<lparr>pred_logits = [[[0, 0]], [[0, 0]]], pred_boxes = [[(0, 0, 1, 1)], [(2, 2, 3, 3)]]\<rparr>"
    and wft: "wf_targets [\<lparr>labels = [0], boxes = [(0, 0, 1, 1)]\<rparr>, \<lparr>labels = [], boxes = []\<rparr>]"
    and lr: "labels_in_range \<lparr>pred_logits = [[[0, 0]], [[0, 0]]], pred_boxes = [[(0, 0, 1, 1)], [(2, 2, 3, 3)]]\<rparr>
               [\<lparr>labels = [0], boxes = [(0, 0, 1, 1)]\<rparr>, \<lparr>labels = [], boxes = []\<rparr>]"
    and bv: "boxes_valid \<lparr>pred_logits = [[[0, 0]], [[0, 0]]], pred_boxes = [[(0, 0, 1, 1)], [(2, 2, 3, 3)]]\<rparr>
               [\<lparr>labels = [0], boxes = [(0, 0, 1, 1)]\<rparr>, \<lparr>labels = [], boxes = []\<rparr>]"
    and cf: "costs_finite \<lparr>pred_logits = [[[0, 0]], [[0, 0]]], pred_boxes = [[(0, 0, 1, 1)], [(2, 2, 3, 3)]]\<rparr>
               [\<lparr>labels = [0], boxes = [(0, 0, 1, 1)]\<rparr>, \<lparr>labels = [], boxes = []\<rparr>]"
    by (simp_all add: wf_outputs_def wf_targets_def labels_in_range_def boxes_valid_def
        costs_finite_def num_queries_of_def valid_box_def giou_pair_def giou_entry_def
        iou_pair_def union_pair_def inter_pair_def box_area_def enclosing_area_def fdiv_def
        fsub_def less_Suc_eq numeral_2_eq_2)
  have same: "length [\<lparr>labels = [0], boxes = [(0, 0, 1, 1)]\<rparr>, \<lparr>labels = [], boxes = []\<rparr>] = length (pred_logits \<lparr>pred_logits = [[[0, 0]], [[0, 0]]], pred_boxes = [[(0, 0, 1, 1)], [(2, 2, 3, 3)]]\<rparr>)" by simp
  have Q: "1 \<le> num_queries_of \<lparr>pred_logits = [[[0, 0]], [[0, 0]]], pred_boxes = [[(0, 0, 1, 1)], [(2, 2, 3, 3)]]\<rparr>" by (simp add: num_queries_of_def)
  have b: "1 < length [\<lparr>labels = [0], boxes = [(0, 0, 1, 1)]\<rparr>, \<lparr>labels = [], boxes = []\<rparr>]" by simp
  have empty: "boxes ([\<lparr>labels = [0], boxes = [(0, 0, 1, 1)]\<rparr>, \<lparr>labels = [], boxes = []\<rparr>] ! 1) = []" by simp
  have h: "forward \<lparr>cost_class = 1, cost_bbox = 1, cost_giou = 1\<rparr>
     \<lparr>pred_logits = [[[0, 0]], [[0, 0]]], pred_boxes = [[(0, 0, 1, 1)], [(2, 2, 3, 3)]]\<rparr>
     [\<lparr>labels = [0], boxes = [(0, 0, 1, 1)]\<rparr>, \<lparr>labels = [], boxes = []\<rparr>]
     = Inr [([0], [0]), ([], [])]"
    by (simp add: forward_def cost_tensor_def num_queries_of_def class_cost_def py_index_def
        cdist_l1_def l1_dist_def generalized_box_iou_def box_iou_def valid_box_def
        giou_entry_def enclosing_area_def iou_pair_def union_pair_def inter_pair_def
        box_area_def fdiv_def fsub_def final_cost_def view3_def block_at_def
        linear_sum_assignment_def best_matching_def total_cost_def bind_err_def softmax_def
        Let_def upt_rec del: not_None_eq)
  show ?thesis
    by (rule conjI [OF h forward_empty_targets [OF wfo wft same Q lr bv cf b empty]])
qed

text \<open>
  Claim C5, as the code has it. \<open>forward\<close> has no check of the number of target
  elements against the batch size. A call that returns has at least one and at most
  batch-size many target elements and returns one assignment for each of them; a call with
  more target elements than batch elements fails.
\<close>

theorem forward_batch_mismatch:
  "(forward self outputs targets = Inr res \<longrightarrow>
      length res = length targets \<and> 1 \<le> length targets
      \<and> length targets \<le> length (pred_logits outputs))
   \<and> (length (pred_logits outputs) < length targets \<longrightarrow>
        (\<exists>e. forward self outputs targets = Inl e))"
proof (intro conjI impI)
  assume fw: "forward self outputs targets = Inr res"
  from forward_Inr [OF fw] have "length res = length targets" "targets \<noteq> []"
    "length targets \<le> length (pred_logits outputs)" by blast+
  then show "length res = length targets" "1 \<le> length targets"
    "length targets \<le> length (pred_logits outputs)"
    by (simp_all add: Suc_le_eq)
next
  assume gt: "length (pred_logits outputs) < length targets"
  show "\<exists>e. forward self outputs targets = Inl e"
  proof (cases "forward self outputs targets")
    case (Inl e)
    then show ?thesis by blast
  next
    case (Inr r)
    from forward_Inr [OF Inr] have "length targets \<le> length (pred_logits outputs)" by blast
    then show ?thesis using gt by simp
  qed
qed

theorem forward_batch_mismatch_witness:
  "forward \<lparr>cost_class = 1, cost_bbox = 1, cost_giou = 1\<rparr>
     \<lparr>pred_logits = [[[0, 0]], [[0, 0]]], pred_boxes = [[(0, 0, 1, 1)], [(2, 2, 3, 3)]]\<rparr>
     [\<lparr>labels = [0], boxes = [(0, 0, 1, 1)]\<rparr>]
     = Inr [([0], [0])]
   \<and> (length ([([0], [0])] :: (nat list \<times> nat list) list) = length [\<lparr>labels = [0], boxes = [(0, 0, 1, 1)]\<rparr>]
      \<and> 1 \<le> length [\<lparr>labels = [0], boxes = [(0, 0, 1, 1)]\<rparr>]
      \<and> length [\<lparr>labels = [0], boxes = [(0, 0, 1, 1)]\<rparr>]
          \<le> length (pred_logits \<lparr>pred_logits = [[[0, 0]], [[0, 0]]], pred_boxes = [[(0, 0, 1, 1)], [(2, 2, 3, 3)]]\<rparr>))
   \<and> length (pred_logits \<lparr>pred_logits = [[[0, 0]], [[0, 0]]], pred_boxes = [[(0, 0, 1, 1)], [(2, 2, 3, 3)]]\<rparr>)
       < length [\<lparr>labels = [0], boxes = [(0, 0, 1, 1)]\<rparr>, \<lparr>labels = [0], boxes = [(0, 0, 1, 1)]\<rparr>, \<lparr>labels = [0], boxes = [(0, 0, 1, 1)]\<rparr>]
   \<and> (\<exists>e. forward \<lparr>cost_class = 1, cost_bbox = 1, cost_giou = 1\<rparr>
              \<lparr>pred_logits = [[[0, 0]], [[0, 0]]], pred_boxes = [[(0, 0, 1, 1)], [(2, 2, 3, 3)]]\<rparr>
              [\<lparr>labels = [0], boxes = [(0, 0, 1, 1)]\<rparr>, \<lparr>labels = [0], boxes = [(0, 0, 1, 1)]\<rparr>, \<lparr>labels = [0], boxes = [(0, 0, 1, 1)]\<rparr>]
            = Inl e)"
proof -
  let ?M = "\<lparr>cost_class = 1, cost_bbox = 1, cost_giou = 1\<rparr>"
  let ?O = "\<lparr>pred_logits = [[[0, 0]], [[0, 0]]], pred_boxes = [[(0, 0, 1, 1)], [(2, 2, 3, 3)]]\<rparr>"
  have h: "forward ?M ?O [\<lparr>labels = [0], boxes = [(0, 0, 1, 1)]\<rparr>]
     = Inr [([0], [0])]"
    by (simp add: forward_def cost_tensor_def num_queries_of_def class_cost_def py_index_def
        cdist_l1_def l1_dist_def generalized_box_iou_def box_iou_def valid_box_def
        giou_entry_def enclosing_area_def iou_pair_def union_pair_def inter_pair_def
        box_area_def fdiv_def fsub_def final_cost_def view3_def block_at_def
        linear_sum_assignment_def best_matching_def total_cost_def bind_err_def softmax_def
        Let_def upt_rec del: not_None_eq)
  have g: "length (pred_logits ?O)
       < length [\<lparr>labels = [0], boxes = [(0, 0, 1, 1)]\<rparr>, \<lparr>labels = [0], boxes = [(0, 0, 1, 1)]\<rparr>, \<lparr>labels = [0], boxes = [(0, 0, 1, 1)]\<rparr>]"
    by simp
  note a = forward_batch_mismatch [of ?M ?O "[\<lparr>labels = [0], boxes = [(0, 0, 1, 1)]\<rparr>]" "[([0], [0])]",
      THEN conjunct1, THEN mp, OF h]
  note b = forward_batch_mismatch [of ?M ?O "[\<lparr>labels = [0], boxes = [(0, 0, 1, 1)]\<rparr>, \<lparr>labels = [0], boxes = [(0, 0, 1, 1)]\<rparr>, \<lparr>labels = [0], boxes = [(0, 0, 1, 1)]\<rparr>]" "[]",
      THEN conjunct2, THEN mp, OF g]
  show ?thesis
    by (rule conjI [OF h conjI [OF a conjI [OF g b]]])
qed

text \<open>
  The claim C5 as stated fails: with two batch elements and one target element the call
  returns one assignment and raises nothing.
\<close>

theorem forward_batch_mismatch_counterexample:
  "length (pred_logits \<lparr>pred_logits = [[[0, 0]], [[0, 0]]], pred_boxes = [[(0, 0, 1, 1)], [(2, 2, 3, 3)]]\<rparr>)
     \<noteq> length [\<lparr>labels = [0], boxes = [(0, 0, 1, 1)]\<rparr>]
   \<and> forward \<lparr>cost_class = 1, cost_bbox = 1, cost_giou = 1\<rparr>
       \<lparr>pred_logits = [[[0, 0]], [[0, 0]]], pred_boxes = [[(0, 0, 1, 1)], [(2, 2, 3, 3)]]\<rparr>
       [\<lparr>labels = [0], boxes = [(0, 0, 1, 1)]\<rparr>]
     = Inr [([0], [0])]"
  by (simp add: forward_def cost_tensor_def num_queries_of_def class_cost_def py_index_def
        cdist_l1_def l1_dist_def generalized_box_iou_def box_iou_def valid_box_def
        giou_entry_def enclosing_area_def iou_pair_def union_pair_def inter_pair_def
        box_area_def fdiv_def fsub_def final_cost_def view3_def block_at_def
        linear_sum_assignment_def best_matching_def total_cost_def bind_err_def softmax_def
        Let_def upt_rec del: not_None_eq)

end
